theory Spec2Isabelle
  imports Main "HOL-Library.Char_ord" "HOL-Library.List_Lexorder" "HOL-Library.Multiset"
begin

section \<open>Values, exceptions and the HTTP boundary\<close>

text \<open>
  The client of \<^verbatim>\<open>src/core/outlookmail_client.py\<close> handles what the remote service
  sends: decoded JSON. A decoded value is \<open>None\<close>, a bool, an int, a str, a list or a
  dict (kept as the list of its items, in order, each key once). JSON floats are not
  modelled. The decoder refuses an int of more than 4300 digits (\<^verbatim>\<open>res.json()\<close> raises
  on it, which is \<open>Bad_json\<close> below), so putting a decoded value into a log message or
  a URL never raises.
\<close>

datatype json =
    JNull
  | JBool bool
  | JInt int
  | JStr string
  | JArr "json list"
  | JObj "(string \<times> json) list"

text \<open>The exceptions the code can meet, as values.\<close>

datatype error =
    ConnectionError
  | JSONDecodeError
  | AttributeError
  | TypeError
  | ValueError
  | ZeroDivisionError
  | OverflowError
  | OSError
  | ExtractorError

text \<open>Python's truth value of a decoded value (\<^verbatim>\<open>not x\<close>, \<^verbatim>\<open>if x\<close>, \<^verbatim>\<open>x or y\<close>).\<close>

fun truthy :: "json \<Rightarrow> bool" where
  "truthy JNull = False"
| "truthy (JBool b) = b"
| "truthy (JInt n) = (n \<noteq> 0)"
| "truthy (JStr s) = (s \<noteq> [])"
| "truthy (JArr xs) = (xs \<noteq> [])"
| "truthy (JObj kvs) = (kvs \<noteq> [])"

definition py_or :: "json \<Rightarrow> json \<Rightarrow> json" where
  "py_or a b = (if truthy a then a else b)"

text \<open>
  \<^verbatim>\<open>x.get(key)\<close>: the value under the key or \<open>None\<close> on a dict; every other
  decoded value has no attribute \<^verbatim>\<open>get\<close>.
\<close>

fun py_get :: "json \<Rightarrow> string \<Rightarrow> error + json" where
  "py_get (JObj kvs) k = Inr (case map_of kvs k of None \<Rightarrow> JNull | Some v \<Rightarrow> v)"
| "py_get _ k = Inl AttributeError"

text \<open>
  Iterating a value, as \<^verbatim>\<open>list.extend(x)\<close> and \<^verbatim>\<open>list(x)\<close> do: the elements of a
  list, the keys of a dict, the characters of a str; \<open>None\<close>, bools and ints are not
  iterable.
\<close>

fun py_iter :: "json \<Rightarrow> error + json list" where
  "py_iter (JArr xs) = Inr xs"
| "py_iter (JObj kvs) = Inr (map (\<lambda>kv. JStr (fst kv)) kvs)"
| "py_iter (JStr s) = Inr (map (\<lambda>c. JStr [c]) s)"
| "py_iter _ = Inl TypeError"

text \<open>
  What \<^verbatim>\<open>requests.request\<close> gives: it raises (connection refused, timeout, ...), or
  it returns a response with a status code and a body. The body is empty
  (\<^verbatim>\<open>res.content\<close> is falsy), or \<^verbatim>\<open>res.json()\<close> raises on it, or it decodes.
\<close>

datatype content = No_content | Bad_json | Json json

datatype response = Transport_error | Response int content

text \<open>\<^verbatim>\<open>res.json() if res.content else default\<close>\<close>

fun json_or :: "content \<Rightarrow> json \<Rightarrow> error + json" where
  "json_or No_content d = Inr d"
| "json_or Bad_json d = Inl JSONDecodeError"
| "json_or (Json v) d = Inr v"

section \<open>The client's state\<close>

text \<open>
  What the program does besides returning: calls of \<^verbatim>\<open>_log\<close> (the level is kept, the
  message text is not), HTTP requests, and \<^verbatim>\<open>time.sleep\<close>.
\<close>

datatype endpoint = Accounts nat | Inbox json

datatype event = Log string | Request endpoint | Sleep int

text \<open>
  \<open>account_index\<close> and \<open>accounts_cache\<close> are the class attributes
  \<^verbatim>\<open>OutlookMailClient._account_index\<close> and \<^verbatim>\<open>_accounts_cache\<close>, shared by all
  instances; \<open>email\<close> and \<open>account_id\<close> are the instance's (\<open>JNull\<close> is \<open>None\<close>).
\<close>

record state =
  account_index :: int
  accounts_cache :: "json list"
  email :: json
  account_id :: json
  trace :: "event list"

definition init :: "state \<Rightarrow> state" where
  "init st = st\<lparr>email := JNull, account_id := JNull\<rparr>"

definition set_credentials :: "string \<Rightarrow> state \<Rightarrow> state" where
  "set_credentials e st = st\<lparr>email := JStr e\<rparr>"

definition log :: "string \<Rightarrow> state \<Rightarrow> state" where
  "log level st = st\<lparr>trace := trace st @ [Log level]\<rparr>"

text \<open>\<^verbatim>\<open>_request\<close>: log, send, log the status, return the response.\<close>

definition request :: "endpoint \<Rightarrow> response \<Rightarrow> state \<Rightarrow> (error + int \<times> content) \<times> state" where
  "request target resp st =
     (let st1 = log ''info'' st;
          st2 = st1\<lparr>trace := trace st1 @ [Request target]\<rparr>
      in case resp of
           Transport_error \<Rightarrow> (Inl ConnectionError, st2)
         | Response status_code body \<Rightarrow> (Inr (status_code, body), log ''info'' st2))"

section \<open>The account selector\<close>

definition page_size :: nat where
  "page_size = 100"

text \<open>
  One pass through the body of the \<^verbatim>\<open>while True\<close> of \<^verbatim>\<open>_fetch_accounts\<close>, given the
  server's answer for this page: the flag says whether the loop goes on to the next
  page (\<open>False\<close> is \<^verbatim>\<open>break\<close>), the list is \<^verbatim>\<open>all_accounts\<close> afterwards.
\<close>

definition fetch_page ::
  "response \<Rightarrow> nat \<Rightarrow> json list \<Rightarrow> state \<Rightarrow> (bool \<times> json list) \<times> state" where
  "fetch_page resp page all_accounts st =
     (case request (Accounts page) resp st of
        (Inl e, st1) \<Rightarrow> ((False, all_accounts), log ''error'' st1)
      | (Inr (status_code, body), st1) \<Rightarrow>
          if status_code \<noteq> 200 then ((False, all_accounts), log ''error'' st1)
          else (case json_or body (JArr []) of
                  Inl e \<Rightarrow> ((False, all_accounts), log ''error'' st1)
                | Inr accounts \<Rightarrow>
                    if \<not> truthy accounts then ((False, all_accounts), st1)
                    else (case py_iter accounts of
                            Inl e \<Rightarrow> ((False, all_accounts), log ''error'' st1)
                          | Inr items \<Rightarrow>
                              if length items < page_size
                              then ((False, all_accounts @ items), st1)
                              else ((True, all_accounts @ items), st1))))"

text \<open>
  The loop itself. The server is the function from the page number to its answer. A
  server that answers every page with a full one keeps the loop running for ever: the
  result is \<open>None\<close> then.
\<close>

partial_function (option) fetch_accounts_from ::
  "(nat \<Rightarrow> response) \<Rightarrow> nat \<Rightarrow> json list \<Rightarrow> state \<Rightarrow> (json list \<times> state) option" where
  "fetch_accounts_from server page all_accounts st =
     (case fetch_page (server page) page all_accounts st of
        ((continue, all_accounts'), st') \<Rightarrow>
          if continue then fetch_accounts_from server (page + 1) all_accounts' st'
          else Some (all_accounts', st'))"

definition fetch_accounts :: "(nat \<Rightarrow> response) \<Rightarrow> state \<Rightarrow> (json list \<times> state) option" where
  "fetch_accounts server st = fetch_accounts_from server 1 [] st"

text \<open>
  \<^verbatim>\<open>register_account\<close>. The result is \<open>None\<close> when the fetch never ends, \<open>Inl\<close> when an
  exception leaves the method, \<open>Inr\<close> of the returned bool otherwise.
\<close>

definition register_account ::
  "(nat \<Rightarrow> response) \<Rightarrow> state \<Rightarrow> ((error + bool) \<times> state) option" where
  "register_account server st =
     (case fetch_accounts server (log ''info'' st) of
        None \<Rightarrow> None
      | Some (fetched, st1) \<Rightarrow>
          Some (let st2 = st1\<lparr>accounts_cache := fetched\<rparr> in
                if accounts_cache st2 = [] then (Inr False, log ''error'' st2)
                else
                  let total = int (length (accounts_cache st2));
                      st3 = log ''info'' st2;
                      index = account_index st3 mod total;
                      account = accounts_cache st3 ! nat index
                  in case py_get account ''email'' of
                       Inl e \<Rightarrow> (Inl e, st3)
                     | Inr em \<Rightarrow>
                         (case py_get account ''id'' of
                            Inl e \<Rightarrow> (Inl e, st3\<lparr>email := em\<rparr>)
                          | Inr aid \<Rightarrow>
                              (Inr True,
                               log ''info''
                                 (st3\<lparr>email := em, account_id := aid,
                                      account_index := (index + 1) mod total\<rparr>)))))"

declare fetch_accounts_from.simps [code]

text \<open>Calling \<^verbatim>\<open>register_account\<close> several times in a row, each call with the server it
  meets; every call's outcome is kept with the state it leaves.\<close>

fun register_calls ::
  "(nat \<Rightarrow> response) list \<Rightarrow> state \<Rightarrow> ((error + bool) \<times> state) list option" where
  "register_calls [] st = Some []"
| "register_calls (server # rest) st =
     (case register_account server st of
        None \<Rightarrow> None
      | Some (r, st') \<Rightarrow>
          (case register_calls rest st' of
             None \<Rightarrow> None
           | Some outs \<Rightarrow> Some ((r, st') # outs)))"

text \<open>An answer that ends the pagination with an error message: the request raised,
  the status is not 200, the body does not decode, or it decodes to a value that
  \<^verbatim>\<open>extend\<close> cannot iterate.\<close>

definition failed :: "response \<Rightarrow> bool" where
  "failed resp =
     (case resp of
        Transport_error \<Rightarrow> True
      | Response status_code body \<Rightarrow>
          if status_code \<noteq> 200 then True
          else (case body of
                  No_content \<Rightarrow> False
                | Bad_json \<Rightarrow> True
                | Json v \<Rightarrow> truthy v \<and> isl (py_iter v)))"

section \<open>The message lister\<close>

text \<open>The \<^verbatim>\<open>try\<close> block of \<^verbatim>\<open>_list_emails\<close>, then the method with its handler.\<close>

definition list_emails_try :: "json \<Rightarrow> response \<Rightarrow> state \<Rightarrow> (error + json list) \<times> state" where
  "list_emails_try address resp st =
     (case request (Inbox address) resp st of
        (Inl e, st1) \<Rightarrow> (Inl e, st1)
      | (Inr (status_code, body), st1) \<Rightarrow>
          if status_code \<noteq> 200 then (Inr [], log ''error'' st1)
          else (case json_or body (JObj []) of
                  Inl e \<Rightarrow> (Inl e, st1)
                | Inr payload \<Rightarrow>
                    (case py_get payload ''success'' of
                       Inl e \<Rightarrow> (Inl e, st1)
                     | Inr success \<Rightarrow>
                         if \<not> truthy success then (Inr [], log ''error'' st1)
                         else (case py_get payload ''emails'' of
                                 Inl e \<Rightarrow> (Inl e, st1)
                               | Inr emails \<Rightarrow>
                                   (case py_iter (py_or emails (JArr [])) of
                                      Inl e \<Rightarrow> (Inl e, st1)
                                    | Inr xs \<Rightarrow> (Inr xs, st1))))))"

definition list_emails :: "json \<Rightarrow> response \<Rightarrow> state \<Rightarrow> (error + json list) \<times> state" where
  "list_emails address resp st =
     (case list_emails_try address resp st of
        (Inl e, st1) \<Rightarrow> (Inr [], log ''error'' st1)
      | (Inr xs, st1) \<Rightarrow> (Inr xs, st1))"

section \<open>Scanning the inbox for a code\<close>

text \<open>
  \<^verbatim>\<open>sorted(emails, key=lambda x: x.get("received_time") or "", reverse=True)\<close>.
  All keys are computed first. Keys are compared with \<open><\<close> only: two strs by code
  points, two numbers (bools count as 0 and 1) by value; a str against a number, or a
  dict against anything, raises TypeError. (Python orders two lists element by element;
  a list as a timestamp is reported as TypeError here.) With \<^verbatim>\<open>reverse=True\<close> the
  result is in descending key order and messages with equal keys keep the order they
  came in; on keys that can all be compared every stable sort returns this list, and the
  model sorts by insertion.
\<close>

fun as_int :: "json \<Rightarrow> int option" where
  "as_int (JInt n) = Some n"
| "as_int (JBool b) = Some (if b then 1 else 0)"
| "as_int _ = None"

fun py_lt :: "json \<Rightarrow> json \<Rightarrow> error + bool" where
  "py_lt (JStr a) (JStr b) = Inr (a < b)"
| "py_lt a b =
     (case (as_int a, as_int b) of
        (Some m, Some n) \<Rightarrow> Inr (m < n)
      | _ \<Rightarrow> Inl TypeError)"

definition sort_key :: "json \<Rightarrow> error + json" where
  "sort_key x =
     (case py_get x ''received_time'' of
        Inl e \<Rightarrow> Inl e
      | Inr v \<Rightarrow> Inr (py_or v (JStr [])))"

fun keyed :: "json list \<Rightarrow> error + (json \<times> json) list" where
  "keyed [] = Inr []"
| "keyed (x # xs) =
     (case sort_key x of
        Inl e \<Rightarrow> Inl e
      | Inr k \<Rightarrow> (case keyed xs of Inl e \<Rightarrow> Inl e | Inr r \<Rightarrow> Inr ((k, x) # r)))"

fun insert_desc :: "json \<times> json \<Rightarrow> (json \<times> json) list \<Rightarrow> error + (json \<times> json) list" where
  "insert_desc x [] = Inr [x]"
| "insert_desc x (y # ys) =
     (case py_lt (fst x) (fst y) of
        Inl e \<Rightarrow> Inl e
      | Inr True \<Rightarrow> (case insert_desc x ys of Inl e \<Rightarrow> Inl e | Inr r \<Rightarrow> Inr (y # r))
      | Inr False \<Rightarrow> Inr (x # y # ys))"

fun sort_desc :: "(json \<times> json) list \<Rightarrow> error + (json \<times> json) list" where
  "sort_desc [] = Inr []"
| "sort_desc (x # xs) =
     (case sort_desc xs of Inl e \<Rightarrow> Inl e | Inr r \<Rightarrow> insert_desc x r)"

definition sorted_newest_first :: "json list \<Rightarrow> error + json list" where
  "sorted_newest_first emails =
     (case keyed emails of
        Inl e \<Rightarrow> Inl e
      | Inr ks \<Rightarrow> (case sort_desc ks of Inl e \<Rightarrow> Inl e | Inr r \<Rightarrow> Inr (map snd r)))"

text \<open>
  A \<^verbatim>\<open>datetime\<close> is naive (no time zone) or aware (with one). The number is what it
  reads on the local clock, in microseconds. Python orders two naive ones, and raises
  TypeError when asked to order a naive one against an aware one.
\<close>

datatype datetime = Naive int | Aware int

fun naive_lt :: "int \<Rightarrow> datetime \<Rightarrow> error + bool" where
  "naive_lt t (Naive u) = Inr (t < u)"
| "naive_lt t (Aware u) = Inl TypeError"

text \<open>\<^verbatim>\<open>s.replace("Z", "+00:00")\<close>\<close>

definition replace_Z :: "string \<Rightarrow> string" where
  "replace_Z s = concat (map (\<lambda>c. if c = CHR ''Z'' then ''+00:00'' else [c]) s)"

text \<open>
  The inner \<^verbatim>\<open>try\<close> block of the time filter. \<open>local_time\<close> stands for the library
  chain \<^verbatim>\<open>datetime.fromisoformat(s).astimezone().replace(tzinfo=None)\<close>: the naive
  local time of the text, or the exception the library raises on it. Only a str has
  \<^verbatim>\<open>replace\<close>.
\<close>

definition older_try :: "(string \<Rightarrow> error + int) \<Rightarrow> datetime \<Rightarrow> json \<Rightarrow> error + bool" where
  "older_try local_time since received_time =
     (case received_time of
        JStr s \<Rightarrow>
          (case local_time (replace_Z s) of
             Inl e \<Rightarrow> Inl e
           | Inr msg_time \<Rightarrow> naive_lt msg_time since)
      | _ \<Rightarrow> Inl AttributeError)"

text \<open>The time filter: \<open>Inr True\<close> is \<^verbatim>\<open>skipped += 1; continue\<close>; the handler of the
  inner block is \<^verbatim>\<open>pass\<close>.\<close>

definition skip_message ::
  "(string \<Rightarrow> error + int) \<Rightarrow> datetime option \<Rightarrow> json \<Rightarrow> error + bool" where
  "skip_message local_time since_time msg =
     (case since_time of
        None \<Rightarrow> Inr False
      | Some since \<Rightarrow>
          (case py_get msg ''received_time'' of
             Inl e \<Rightarrow> Inl e
           | Inr received_time \<Rightarrow>
               if \<not> truthy received_time then Inr False
               else (case older_try local_time since received_time of
                       Inl e \<Rightarrow> Inr False
                     | Inr older \<Rightarrow> Inr older)))"

text \<open>\<^verbatim>\<open>a + b\<close> on decoded values, and \<^verbatim>\<open>x[:n]\<close>.\<close>

fun py_add :: "json \<Rightarrow> json \<Rightarrow> error + json" where
  "py_add (JStr a) (JStr b) = Inr (JStr (a @ b))"
| "py_add (JArr a) (JArr b) = Inr (JArr (a @ b))"
| "py_add a b =
     (case (as_int a, as_int b) of
        (Some m, Some n) \<Rightarrow> Inr (JInt (m + n))
      | _ \<Rightarrow> Inl TypeError)"

fun py_slice :: "nat \<Rightarrow> json \<Rightarrow> error + json" where
  "py_slice n (JStr s) = Inr (JStr (take n s))"
| "py_slice n (JArr xs) = Inr (JArr (take n xs))"
| "py_slice n _ = Inl TypeError"

definition message_content :: "json \<Rightarrow> error + json" where
  "message_content msg =
     (case py_get msg ''body'' of
        Inl e \<Rightarrow> Inl e
      | Inr body \<Rightarrow>
          (case py_get msg ''body_preview'' of
             Inl e \<Rightarrow> Inl e
           | Inr body_preview \<Rightarrow> py_add (py_or body (JStr [])) (py_or body_preview (JStr []))))"

text \<open>
  The \<^verbatim>\<open>for\<close> loop over the sorted messages. \<open>extract_code\<close> is
  \<^verbatim>\<open>core.mail_utils.extract_verification_code\<close>, which is not part of this file: it is
  a parameter, and may return any value or raise. The loop ends with \<open>Inr (Some code)\<close>
  on \<^verbatim>\<open>return code\<close>, with \<open>Inr None\<close> when it runs out of messages, and with \<open>Inl\<close> when
  an exception leaves it; the number is \<^verbatim>\<open>skipped\<close>.
\<close>

fun scan ::
  "(json \<Rightarrow> error + json) \<Rightarrow> (string \<Rightarrow> error + int) \<Rightarrow> datetime option \<Rightarrow>
   json list \<Rightarrow> nat \<Rightarrow> state \<Rightarrow> (error + json option) \<times> nat \<times> state" where
  "scan extract_code local_time since_time [] skipped st = (Inr None, skipped, st)"
| "scan extract_code local_time since_time (msg # rest) skipped st =
     (case skip_message local_time since_time msg of
        Inl e \<Rightarrow> (Inl e, skipped, st)
      | Inr True \<Rightarrow> scan extract_code local_time since_time rest (skipped + 1) st
      | Inr False \<Rightarrow>
          (case py_get msg ''subject'' of
             Inl e \<Rightarrow> (Inl e, skipped, st)
           | Inr subject \<Rightarrow>
               (case py_slice 50 (py_or subject (JStr [])) of
                  Inl e \<Rightarrow> (Inl e, skipped, st)
                | Inr shown \<Rightarrow>
                    (case message_content msg of
                       Inl e \<Rightarrow> (Inl e, skipped, log ''info'' st)
                     | Inr content \<Rightarrow>
                         (case extract_code content of
                            Inl e \<Rightarrow> (Inl e, skipped, log ''info'' st)
                          | Inr code \<Rightarrow>
                              if truthy code
                              then (Inr (Some code), skipped, log ''info'' (log ''info'' st))
                              else scan extract_code local_time since_time rest skipped
                                     (log ''info'' st))))))"

text \<open>The outer \<^verbatim>\<open>try\<close> block of \<^verbatim>\<open>fetch_verification_code\<close>, then the method.\<close>

definition fetch_try ::
  "(json \<Rightarrow> error + json) \<Rightarrow> (string \<Rightarrow> error + int) \<Rightarrow> response \<Rightarrow> datetime option \<Rightarrow>
   state \<Rightarrow> (error + json) \<times> state" where
  "fetch_try extract_code local_time resp since_time st =
     (case list_emails (email st) resp (log ''info'' st) of
        (Inl e, st1) \<Rightarrow> (Inl e, st1)
      | (Inr emails, st1) \<Rightarrow>
          if emails = [] then (Inr JNull, log ''info'' st1)
          else (case sorted_newest_first emails of
                  Inl e \<Rightarrow> (Inl e, st1)
                | Inr sorted_emails \<Rightarrow>
                    (case scan extract_code local_time since_time sorted_emails 0 (log ''info'' st1) of
                       (Inl e, skipped, st2) \<Rightarrow> (Inl e, st2)
                     | (Inr (Some code), skipped, st2) \<Rightarrow> (Inr code, st2)
                     | (Inr None, skipped, st2) \<Rightarrow>
                         (Inr JNull,
                          log ''warning'' (if skipped \<noteq> 0 then log ''info'' st2 else st2)))))"

definition fetch_verification_code ::
  "(json \<Rightarrow> error + json) \<Rightarrow> (string \<Rightarrow> error + int) \<Rightarrow> response \<Rightarrow> datetime option \<Rightarrow>
   state \<Rightarrow> (error + json) \<times> state" where
  "fetch_verification_code extract_code local_time resp since_time st =
     (if \<not> truthy (email st) then (Inr JNull, log ''error'' st)
      else (case fetch_try extract_code local_time resp since_time st of
              (Inl e, st1) \<Rightarrow> (Inr JNull, log ''error'' st1)
            | (Inr code, st1) \<Rightarrow> (Inr code, st1)))"

section \<open>The polling loop\<close>

text \<open>
  \<^verbatim>\<open>time.sleep(secs)\<close> on an int. It raises ValueError on a negative length, and
  OverflowError when the length in nanoseconds does not fit 64 bits, that is above
  9223372036 seconds. Below that, the system call still refuses a length that is too
  long for it (OSError): \<open>platform_limit\<close> is the longest sleep it accepts, which depends
  on the platform and on its clock.
\<close>

definition max_sleep :: int where
  "max_sleep = 9223372036"

definition sleep :: "int \<Rightarrow> int \<Rightarrow> state \<Rightarrow> (error + unit) \<times> state" where
  "sleep platform_limit secs st =
     (if secs < 0 then (Inl ValueError, st)
      else if max_sleep < secs then (Inl OverflowError, st)
      else if platform_limit < secs then (Inl OSError, st)
      else (Inr (), st\<lparr>trace := trace st @ [Sleep secs]\<rparr>))"

text \<open>
  An int in an f-string: CPython (3.11, default settings) raises ValueError when the int
  has more than 4300 decimal digits.
\<close>

definition max_str_digits :: nat where
  "max_str_digits = 4300"

fun digits :: "nat \<Rightarrow> nat" where
  "digits n = (if n < 10 then 1 else Suc (digits (n div 10)))"

declare digits.simps [simp del]

definition str_int :: "int \<Rightarrow> error + unit" where
  "str_int n = (if max_str_digits < digits (nat \<bar>n\<bar>) then Inl ValueError else Inr ())"

definition max_retries :: "int \<Rightarrow> int \<Rightarrow> int" where
  "max_retries timeout interval = max 1 (timeout div interval)"

text \<open>
  The \<^verbatim>\<open>for i in range(1, max_retries + 1)\<close> loop from attempt \<open>i\<close> on, and the
  statements after it. \<open>inbox i\<close> is the service's answer at attempt \<open>i\<close>. The numbers
  that the log lines of the loop show (\<open>i\<close>, \<open>max_retries\<close>, \<open>timeout\<close>) have been formatted
  by the log line before the loop.
\<close>

function poll_from ::
  "int \<Rightarrow> (json \<Rightarrow> error + json) \<Rightarrow> (string \<Rightarrow> error + int) \<Rightarrow> (nat \<Rightarrow> response) \<Rightarrow> int \<Rightarrow>
   datetime option \<Rightarrow> nat \<Rightarrow> nat \<Rightarrow> state \<Rightarrow> (error + json) \<times> state" where
  "poll_from platform_limit extract_code local_time inbox interval since_time n i st =
     (if n < i then (Inr JNull, log ''error'' st)
      else
        (case fetch_verification_code extract_code local_time (inbox i) since_time (log ''info'' st) of
           (Inl e, st1) \<Rightarrow> (Inl e, st1)
         | (Inr code, st1) \<Rightarrow>
             if truthy code then (Inr code, log ''info'' st1)
             else if i < n
             then (case sleep platform_limit interval st1 of
                     (Inl e, st2) \<Rightarrow> (Inl e, st2)
                   | (Inr u, st2) \<Rightarrow>
                       poll_from platform_limit extract_code local_time inbox interval since_time
                         n (i + 1) st2)
             else poll_from platform_limit extract_code local_time inbox interval since_time
                    n (i + 1) st1))"
  by pat_completeness auto
termination
  by (relation "measure (\<lambda>(platform_limit, extract_code, local_time, inbox, interval,
                             since_time, n, i, st). n + 1 - i)")
     auto

declare poll_from.simps [simp del]

text \<open>
  \<^verbatim>\<open>poll_for_code\<close>. \<^verbatim>\<open>timeout // interval\<close> raises ZeroDivisionError when the interval
  is 0; the log line that follows shows \<open>timeout\<close>, \<open>interval\<close> and \<open>max_retries\<close>.
\<close>

definition poll_for_code ::
  "int \<Rightarrow> (json \<Rightarrow> error + json) \<Rightarrow> (string \<Rightarrow> error + int) \<Rightarrow> (nat \<Rightarrow> response) \<Rightarrow>
   int \<Rightarrow> int \<Rightarrow> datetime option \<Rightarrow> state \<Rightarrow> (error + json) \<times> state" where
  "poll_for_code platform_limit extract_code local_time inbox timeout interval since_time st =
     (if \<not> truthy (email st) then (Inr JNull, log ''error'' st)
      else if interval = 0 then (Inl ZeroDivisionError, st)
      else
        (case str_int timeout of
           Inl e \<Rightarrow> (Inl e, st)
         | Inr u \<Rightarrow>
             (case str_int interval of
                Inl e \<Rightarrow> (Inl e, st)
              | Inr v \<Rightarrow>
                  (case str_int (max_retries timeout interval) of
                     Inl e \<Rightarrow> (Inl e, st)
                   | Inr w \<Rightarrow>
                       poll_from platform_limit extract_code local_time inbox interval since_time
                         (nat (max_retries timeout interval)) 1 (log ''info'' st)))))"

section \<open>Vocabulary for the statements\<close>

text \<open>
  The value of a field of an object (\<open>None\<close> when it is absent), and its text. A message
  as the service documents it is an object whose \<open>subject\<close>, \<open>body\<close>, \<open>body_preview\<close>
  and \<open>received_time\<close> are each a str, \<open>null\<close> or absent; an account is an object.
\<close>

definition field :: "json \<Rightarrow> string \<Rightarrow> json" where
  "field x k = (case py_get x k of Inl e \<Rightarrow> JNull | Inr v \<Rightarrow> v)"

fun text_of :: "json \<Rightarrow> string" where
  "text_of (JStr s) = s"
| "text_of _ = []"

fun text_or_none :: "json \<Rightarrow> bool" where
  "text_or_none JNull = True"
| "text_or_none (JStr s) = True"
| "text_or_none _ = False"

fun is_object :: "json \<Rightarrow> bool" where
  "is_object (JObj kvs) = True"
| "is_object _ = False"

definition is_message :: "json \<Rightarrow> bool" where
  "is_message m =
     (is_object m \<and> text_or_none (field m ''subject'') \<and> text_or_none (field m ''body'')
      \<and> text_or_none (field m ''body_preview'') \<and> text_or_none (field m ''received_time''))"

text \<open>The timestamp text a message is sorted by, the text that is searched for a code,
  and what the extractor finds there (nothing when it raises).\<close>

definition time_key :: "json \<Rightarrow> string" where
  "time_key m = text_of (field m ''received_time'')"

definition message_text :: "json \<Rightarrow> string" where
  "message_text m = text_of (field m ''body'') @ text_of (field m ''body_preview'')"

definition code_of :: "(json \<Rightarrow> error + json) \<Rightarrow> json \<Rightarrow> json" where
  "code_of extract_code m =
     (case extract_code (JStr (message_text m)) of Inl e \<Rightarrow> JNull | Inr code \<Rightarrow> code)"

definition first_code :: "(json \<Rightarrow> error + json) \<Rightarrow> json list \<Rightarrow> json" where
  "first_code extract_code msgs =
     (case find (\<lambda>m. truthy (code_of extract_code m)) msgs of
        None \<Rightarrow> JNull
      | Some m \<Rightarrow> code_of extract_code m)"

text \<open>The time a message was received, when its \<open>received_time\<close> is a non-empty str that
  the library can read; and whether that time lies before a naive \<open>since_time\<close>.\<close>

definition message_time :: "(string \<Rightarrow> error + int) \<Rightarrow> json \<Rightarrow> int option" where
  "message_time local_time m =
     (case field m ''received_time'' of
        JStr s \<Rightarrow>
          if s = [] then None
          else (case local_time (replace_Z s) of Inl e \<Rightarrow> None | Inr t \<Rightarrow> Some t)
      | _ \<Rightarrow> None)"

definition earlier :: "(string \<Rightarrow> error + int) \<Rightarrow> int \<Rightarrow> json \<Rightarrow> bool" where
  "earlier local_time since m =
     (case message_time local_time m of None \<Rightarrow> False | Some t \<Rightarrow> t < since)"

text \<open>
  An accounts answer that ends the pagination without an error and without accounts
  (status 200 and an empty body or a value that counts as false), and one that ends it
  with a last, short page of accounts.
\<close>

definition empty_page :: "response \<Rightarrow> bool" where
  "empty_page resp =
     (case resp of
        Transport_error \<Rightarrow> False
      | Response status_code body \<Rightarrow>
          status_code = 200
          \<and> (case body of No_content \<Rightarrow> True | Bad_json \<Rightarrow> False | Json v \<Rightarrow> \<not> truthy v))"

definition short_page :: "response \<Rightarrow> json list \<Rightarrow> bool" where
  "short_page resp items =
     (resp = Response 200 (Json (JArr items)) \<and> items \<noteq> [] \<and> length items < page_size)"

text \<open>A message goes on to be searched when the time filter of the code does not skip
  it.\<close>

definition passes :: "(string \<Rightarrow> error + int) \<Rightarrow> datetime option \<Rightarrow> json \<Rightarrow> bool" where
  "passes local_time since_time m = (skip_message local_time since_time m \<noteq> Inr True)"

text \<open>An int that a log line can show, and a length that \<^verbatim>\<open>time.sleep\<close> accepts on a
  platform with the given limit.\<close>

definition can_format :: "int \<Rightarrow> bool" where
  "can_format n = (digits (nat \<bar>n\<bar>) \<le> max_str_digits)"

definition sleep_accepts :: "int \<Rightarrow> int \<Rightarrow> bool" where
  "sleep_accepts platform_limit secs = (0 \<le> secs \<and> secs \<le> max_sleep \<and> secs \<le> platform_limit)"

text \<open>What attempt \<open>i\<close> of a poll finds: the value \<^verbatim>\<open>fetch_verification_code\<close> returns on
  the inbox as it is at that attempt.\<close>

definition attempt ::
  "(json \<Rightarrow> error + json) \<Rightarrow> (string \<Rightarrow> error + int) \<Rightarrow> (nat \<Rightarrow> response) \<Rightarrow>
   datetime option \<Rightarrow> state \<Rightarrow> nat \<Rightarrow> json" where
  "attempt extract_code local_time inbox since_time st i =
     (case fst (fetch_verification_code extract_code local_time (inbox i) since_time st) of
        Inl e \<Rightarrow> JNull
      | Inr code \<Rightarrow> code)"

text \<open>The attempts (inbox requests) and sleeps of a trace, and the shape of \<open>k\<close> attempts
  with a sleep between each two.\<close>

fun is_attempt_or_sleep :: "event \<Rightarrow> bool" where
  "is_attempt_or_sleep (Request (Inbox a)) = True"
| "is_attempt_or_sleep (Sleep secs) = True"
| "is_attempt_or_sleep _ = False"

definition attempts_and_sleeps :: "state \<Rightarrow> state \<Rightarrow> event list" where
  "attempts_and_sleeps st st' = filter is_attempt_or_sleep (drop (length (trace st)) (trace st'))"

fun attempts_with_sleeps :: "json \<Rightarrow> int \<Rightarrow> nat \<Rightarrow> event list" where
  "attempts_with_sleeps a secs 0 = []"
| "attempts_with_sleeps a secs (Suc 0) = [Request (Inbox a)]"
| "attempts_with_sleeps a secs (Suc (Suc k)) =
     Request (Inbox a) # Sleep secs # attempts_with_sleeps a secs (Suc k)"

section \<open>Inputs used as examples\<close>

definition fresh :: state where
  "fresh = \<lparr>account_index = 0, accounts_cache = [], email = JNull, account_id = JNull,
             trace = []\<rparr>"

definition alice :: json where
  "alice = JObj [(''id'', JInt 1), (''email'', JStr ''alice@example.org'')]"

definition bob :: json where
  "bob = JObj [(''id'', JInt 2), (''email'', JStr ''bob@example.org'')]"

definition carol :: json where
  "carol = JObj [(''id'', JInt 3), (''email'', JStr ''carol@example.org'')]"

definition three_accounts :: "nat \<Rightarrow> response" where
  "three_accounts page =
     (if page = 1 then Response 200 (Json (JArr [alice, bob, carol]))
      else Response 200 (Json (JArr [])))"

definition two_accounts :: "nat \<Rightarrow> response" where
  "two_accounts page =
     (if page = 1 then Response 200 (Json (JArr [alice, bob]))
      else Response 200 (Json (JArr [])))"

definition full_then_down :: "nat \<Rightarrow> response" where
  "full_then_down page =
     (if page = 1 then Response 200 (Json (JArr (replicate 100 alice))) else Transport_error)"

definition down :: "nat \<Rightarrow> response" where
  "down page = Transport_error"

definition no_accounts :: "nat \<Rightarrow> response" where
  "no_accounts page = Response 200 (Json (JArr []))"

definition full_then_short :: "nat \<Rightarrow> response" where
  "full_then_short page =
     (if page = 1 then Response 200 (Json (JArr (replicate 100 alice)))
      else Response 200 (Json (JArr [bob, carol])))"

definition changing_pools :: "((error + bool) \<times> state) list option" where
  "changing_pools = register_calls [three_accounts, three_accounts, two_accounts] fresh"

definition three_rounds :: "((error + bool) \<times> state) list option" where
  "three_rounds = register_calls [three_accounts, three_accounts, three_accounts] fresh"

text \<open>An inbox answer with the given messages, and a message.\<close>

definition inbox_of :: "json list \<Rightarrow> response" where
  "inbox_of msgs = Response 200 (Json (JObj [(''success'', JBool True), (''emails'', JArr msgs)]))"

definition mail :: "string \<Rightarrow> string \<Rightarrow> string \<Rightarrow> json" where
  "mail received body_text preview =
     JObj [(''subject'', JStr ''Your code''), (''body'', JStr body_text),
           (''body_preview'', JStr preview), (''received_time'', JStr received)]"

text \<open>An extractor for the examples: the first six digits in a row, if there are any.\<close>

definition is_digit :: "char \<Rightarrow> bool" where
  "is_digit c = (CHR ''0'' \<le> c \<and> c \<le> CHR ''9'')"

fun find_digits :: "string \<Rightarrow> string option" where
  "find_digits [] = None"
| "find_digits (c # cs) =
     (if 6 \<le> length (takeWhile is_digit (c # cs)) then Some (take 6 (c # cs))
      else find_digits cs)"

fun six_digits :: "json \<Rightarrow> error + json" where
  "six_digits (JStr s) = Inr (case find_digits s of None \<Rightarrow> JNull | Some d \<Rightarrow> JStr d)"
| "six_digits _ = Inl TypeError"

text \<open>The library's reading of the three timestamps of the examples (the unit does not
  matter), and ValueError on every other text.\<close>

definition clock :: "string \<Rightarrow> error + int" where
  "clock s =
     (if s = ''2026-01-27T11:00:00+00:00'' then Inr 1100
      else if s = ''2026-01-27T12:00:00+00:00'' then Inr 1200
      else if s = ''2026-01-27T13:00:00+00:00'' then Inr 1300
      else Inl ValueError)"

definition selected :: state where
  "selected = fresh\<lparr>email := JStr ''alice@example.org'', account_id := JInt 1\<rparr>"

text \<open>Messages of the examples: three with a timestamp an hour apart, one without a
  timestamp, one whose timestamp cannot be read.\<close>

definition mail_11 :: json where
  "mail_11 = mail ''2026-01-27T11:00:00Z'' ''Your code is 111111.'' ''Your code''"

definition mail_12 :: json where
  "mail_12 = mail ''2026-01-27T12:00:00Z'' ''Welcome aboard.'' ''Welcome''"

definition mail_13 :: json where
  "mail_13 = mail ''2026-01-27T13:00:00Z'' ''See you soon.'' ''See you''"

definition undated :: json where
  "undated = JObj [(''subject'', JNull), (''body'', JStr ''Old code 999999''),
                   (''body_preview'', JNull)]"

definition garbled :: json where
  "garbled = mail ''yesterday'' ''Code 777777'' ''Code''"


text \<open>A platform whose longest sleep is a little under the 64-bit bound.\<close>

definition some_limit :: int where
  "some_limit = 9000000000"

text \<open>An inbox that never gets a code, and one where the code arrives before the second
  attempt.\<close>

definition quiet_inbox :: "nat \<Rightarrow> response" where
  "quiet_inbox i = inbox_of [mail_12]"

definition late_inbox :: "nat \<Rightarrow> response" where
  "late_inbox i = (if i < 2 then inbox_of [] else inbox_of [mail_11])"

section \<open>Facts about the account selector\<close>

lemma log_fields [simp]:
  "account_index (log l st) = account_index st"
  "accounts_cache (log l st) = accounts_cache st"
  "email (log l st) = email st"
  "account_id (log l st) = account_id st"
  "trace (log l st) = trace st @ [Log l]"
  by (simp_all add: log_def)

lemma request_frame:
  "request target resp st = (r, st') \<Longrightarrow> \<exists>tr. st' = st\<lparr>trace := tr\<rparr>"
  by (auto simp: request_def log_def Let_def split: response.splits)

lemma fetch_page_frame:
  "fetch_page resp page acc st = (r, st') \<Longrightarrow> \<exists>tr. st' = st\<lparr>trace := tr\<rparr>"
  unfolding fetch_page_def
  by (auto simp: log_def split: prod.splits sum.splits if_splits dest!: request_frame)

lemma fetch_page_state_indep:
  "fst (fetch_page resp page acc st) = fst (fetch_page resp page acc st2)"
  by (cases resp) (auto simp: fetch_page_def request_def Let_def split: sum.splits)

lemma fetch_page_full:
  "page_size \<le> length items \<Longrightarrow>
   fst (fetch_page (Response 200 (Json (JArr items))) page acc st) = (True, acc @ items)"
  by (auto simp: fetch_page_def request_def Let_def page_size_def)

lemma fetch_page_failed:
  "failed resp \<Longrightarrow> fst (fetch_page resp page acc st) = (False, acc)"
  by (cases resp) (auto simp: failed_def fetch_page_def request_def Let_def split: sum.splits content.splits)

lemma fetch_from_frame:
  assumes "fetch_accounts_from server page acc st = Some y"
  shows "\<exists>tr. snd y = st\<lparr>trace := tr\<rparr>"
proof (rule fetch_accounts_from.raw_induct
    [where P = "\<lambda>server page acc st y. \<exists>tr. snd y = st\<lparr>trace := tr\<rparr>", OF _ assms])
  fix f :: "(nat \<Rightarrow> response) \<Rightarrow> nat \<Rightarrow> json list \<Rightarrow> state \<Rightarrow> (json list \<times> state) option"
  fix server page acc st y
  assume IH: "\<And>server page acc st y. f server page acc st = Some y \<Longrightarrow> \<exists>tr. snd y = st\<lparr>trace := tr\<rparr>"
  assume body: "(case fetch_page (server page) page acc st of
        ((continue, acc'), st') \<Rightarrow>
          if continue then f server (page + 1) acc' st' else Some (acc', st')) = Some y"
  obtain c acc' st' where fp: "fetch_page (server page) page acc st = ((c, acc'), st')"
    by (metis prod.exhaust)
  then obtain tr where st': "st' = st\<lparr>trace := tr\<rparr>"
    using fetch_page_frame by blast
  show "\<exists>tr. snd y = st\<lparr>trace := tr\<rparr>"
  proof (cases c)
    case True
    with body fp have "f server (page + 1) acc' st' = Some y" by simp
    then obtain tr2 where "snd y = st'\<lparr>trace := tr2\<rparr>" using IH by blast
    with st' show ?thesis by auto
  next
    case False
    with body fp have "y = (acc', st')" by simp
    with st' show ?thesis by auto
  qed
qed

lemma fetch_from_state_indep:
  assumes "fetch_accounts_from server page acc st = Some y"
  shows "\<exists>st2'. fetch_accounts_from server page acc st2 = Some (fst y, st2')"
proof -
  have "\<forall>st2. \<exists>st2'. fetch_accounts_from server page acc st2 = Some (fst y, st2')"
  proof (rule fetch_accounts_from.raw_induct
    [where P = "\<lambda>server page acc st y.
       \<forall>st2. \<exists>st2'. fetch_accounts_from server page acc st2 = Some (fst y, st2')", OF _ assms])
    fix f :: "(nat \<Rightarrow> response) \<Rightarrow> nat \<Rightarrow> json list \<Rightarrow> state \<Rightarrow> (json list \<times> state) option"
    fix server page acc st y
    assume IH: "\<And>server page acc st y. f server page acc st = Some y \<Longrightarrow>
       \<forall>st2. \<exists>st2'. fetch_accounts_from server page acc st2 = Some (fst y, st2')"
    assume body: "(case fetch_page (server page) page acc st of
        ((continue, acc'), st') \<Rightarrow>
          if continue then f server (page + 1) acc' st' else Some (acc', st')) = Some y"
    obtain c acc' st' where fp: "fetch_page (server page) page acc st = ((c, acc'), st')"
      by (metis prod.exhaust)
    show "\<forall>st2. \<exists>st2'. fetch_accounts_from server page acc st2 = Some (fst y, st2')"
    proof
      fix st2
      obtain st2'' where fp2: "fetch_page (server page) page acc st2 = ((c, acc'), st2'')"
        using fetch_page_state_indep [of "server page" page acc st st2] fp
        by (metis fst_conv prod.exhaust_sel)
      show "\<exists>st2'. fetch_accounts_from server page acc st2 = Some (fst y, st2')"
      proof (cases c)
        case True
        with body fp have "f server (page + 1) acc' st' = Some y" by simp
        then obtain st3 where
          "fetch_accounts_from server (page + 1) acc' st2'' = Some (fst y, st3)"
          using IH by blast
        with True fp2 show ?thesis
          by (subst fetch_accounts_from.simps) simp
      next
        case False
        with body fp have "y = (acc', st')" by simp
        with False fp2 show ?thesis
          by (subst fetch_accounts_from.simps) simp
      qed
    qed
  qed
  then show ?thesis by blast
qed

lemma register_account_Some:
  assumes f: "fetch_accounts server (log ''info'' st) = Some (pool, st1)"
  shows "\<exists>tr. st1 = st\<lparr>trace := tr\<rparr> \<and>
     register_account server st = Some
       (if pool = [] then (Inr False, st\<lparr>accounts_cache := [], trace := tr @ [Log ''error'']\<rparr>)
        else let total = int (length pool); index = account_index st mod total;
                 account = pool ! nat index
             in case py_get account ''email'' of
                  Inl e \<Rightarrow> (Inl e, st\<lparr>accounts_cache := pool, trace := tr @ [Log ''info'']\<rparr>)
                | Inr em \<Rightarrow> (case py_get account ''id'' of
                     Inl e \<Rightarrow> (Inl e, st\<lparr>accounts_cache := pool, email := em, trace := tr @ [Log ''info'']\<rparr>)
                   | Inr aid \<Rightarrow> (Inr True, st\<lparr>accounts_cache := pool, email := em, account_id := aid,
                        account_index := (index + 1) mod total,
                        trace := tr @ [Log ''info'', Log ''info'']\<rparr>)))"
proof -
  obtain tr where st1: "st1 = (log ''info'' st)\<lparr>trace := tr\<rparr>"
    using f fetch_from_frame [of server 1 "[]" "log ''info'' st" "(pool, st1)"]
    by (auto simp: fetch_accounts_def)
  then have "st1 = st\<lparr>trace := tr\<rparr>" by (simp add: log_def)
  with f show ?thesis
    by (auto simp: register_account_def Let_def log_def split: sum.splits)
qed

lemma register_account_pool:
  assumes "register_account server st = Some (r, st')"
  shows "\<exists>pool st1. fetch_accounts server (log ''info'' st) = Some (pool, st1)
           \<and> accounts_cache st' = pool \<and> ((r = Inr False) = (pool = []))"
proof -
  from assms obtain pool st1 where f: "fetch_accounts server (log ''info'' st) = Some (pool, st1)"
    by (auto simp: register_account_def split: option.splits)
  from register_account_Some [OF f] assms f show ?thesis
    by (auto simp: Let_def split: if_splits sum.splits)
qed

lemma register_account_selects:
  assumes f: "fetch_accounts server st0 = Some (pool, st0')"
    and ne: "pool \<noteq> []"
    and objs: "list_all is_object pool"
  shows "\<exists>st'. register_account server st = Some (Inr True, st')
           \<and> accounts_cache st' = pool
           \<and> py_get (pool ! nat (account_index st mod int (length pool))) ''email'' = Inr (email st')
           \<and> py_get (pool ! nat (account_index st mod int (length pool))) ''id'' = Inr (account_id st')
           \<and> account_index st' = (account_index st mod int (length pool) + 1) mod int (length pool)"
proof -
  obtain st1 where f1: "fetch_accounts server (log ''info'' st) = Some (pool, st1)"
    using fetch_from_state_indep [of server 1 "[]" st0 "(pool, st0')" "log ''info'' st"] f
    by (auto simp: fetch_accounts_def)
  let ?i = "nat (account_index st mod int (length pool))"
  have "?i < length pool" using ne by (simp add: nat_less_iff)
  then have "is_object (pool ! ?i)" using objs by (simp add: list_all_length)
  then obtain kvs where "pool ! ?i = JObj kvs" by (cases "pool ! ?i") auto
  with register_account_Some [OF f1] ne show ?thesis
    by (auto simp: Let_def)
qed

lemma register_account_True:
  assumes "register_account server st = Some (Inr True, st')"
  shows "accounts_cache st' \<noteq> []
     \<and> py_get (accounts_cache st' ! nat (account_index st mod int (length (accounts_cache st')))) ''email'' = Inr (email st')
     \<and> py_get (accounts_cache st' ! nat (account_index st mod int (length (accounts_cache st')))) ''id'' = Inr (account_id st')
     \<and> account_index st' = (account_index st mod int (length (accounts_cache st')) + 1) mod int (length (accounts_cache st'))"
proof -
  from assms obtain pool st1 where f: "fetch_accounts server (log ''info'' st) = Some (pool, st1)"
    by (auto simp: register_account_def split: option.splits)
  from register_account_Some [OF f] assms show ?thesis
    by (auto simp: Let_def split: if_splits sum.splits)
qed

lemma fetch_page_empty:
  "empty_page resp \<Longrightarrow> fst (fetch_page resp page acc st) = (False, acc)"
  by (cases resp)
     (auto simp: empty_page_def fetch_page_def request_def Let_def split: content.splits)

lemma fetch_page_short:
  "short_page resp items \<Longrightarrow> fst (fetch_page resp page acc st) = (False, acc @ items)"
  by (auto simp: short_page_def fetch_page_def request_def Let_def)

lemma fetch_page_last:
  assumes "(failed resp \<or> empty_page resp) \<and> tail = [] \<or> short_page resp tail"
  shows "fst (fetch_page resp page acc st) = (False, acc @ tail)"
  using assms fetch_page_failed fetch_page_empty fetch_page_short by fastforce

lemma fetch_from_run:
  "\<forall>j<length pages. server (p + j) = Response 200 (Json (JArr (pages ! j)))
                      \<and> page_size \<le> length (pages ! j) \<Longrightarrow>
   (failed (server (p + length pages)) \<or> empty_page (server (p + length pages))) \<and> tail = []
     \<or> short_page (server (p + length pages)) tail \<Longrightarrow>
   \<exists>st'. fetch_accounts_from server p acc st = Some (acc @ concat pages @ tail, st')"
proof (induction pages arbitrary: p acc st)
  case Nil
  then have "fst (fetch_page (server p) p acc st) = (False, acc @ tail)"
    using fetch_page_last [of "server p" tail p acc st] by simp
  then obtain st' where "fetch_page (server p) p acc st = ((False, acc @ tail), st')"
    by (metis prod.exhaust_sel)
  then show ?case by (subst fetch_accounts_from.simps) simp
next
  case (Cons pg pages)
  from Cons.prems(1) have here: "server p = Response 200 (Json (JArr pg))" "page_size \<le> length pg"
    by force+
  have rest: "\<forall>j<length pages. server (Suc p + j) = Response 200 (Json (JArr (pages ! j)))
                      \<and> page_size \<le> length (pages ! j)"
    using Cons.prems(1) by fastforce
  have stop: "(failed (server (Suc p + length pages)) \<or> empty_page (server (Suc p + length pages)))
       \<and> tail = [] \<or> short_page (server (Suc p + length pages)) tail"
    using Cons.prems(2) by simp
  from Cons.IH [OF rest stop]
  have "\<And>st. \<exists>st'. fetch_accounts_from server (Suc p) (acc @ pg) st
          = Some ((acc @ pg) @ concat pages @ tail, st')"
    by blast
  moreover obtain st1 where "fetch_page (server p) p acc st = ((True, acc @ pg), st1)"
    using fetch_page_full [OF here(2), of p acc st] here(1) by (metis prod.exhaust_sel)
  ultimately show ?case
    by (subst fetch_accounts_from.simps) simp
qed

text \<open>
  Claim C2. The server answers the first requests with full pages of accounts, and the
  request after them with a failure (it raises, the status is not 200, or the body cannot
  be used), with an empty page, or with a short page of accounts. Then
  \<^verbatim>\<open>register_account\<close> returns, the cache holds the accounts of the full pages followed by
  those of the short page, and the result is \<open>False\<close> exactly when there is no full page
  and no account on the last one: an empty or a failed first page gives \<open>False\<close>, a short
  first page gives \<open>True\<close>, and a failure after full pages leaves the accounts of the
  earlier pages in use and gives \<open>True\<close> (the accounts being objects). Whenever
  \<^verbatim>\<open>register_account\<close> returns at all, the result is \<open>False\<close> exactly when the cache it
  leaves is empty.
\<close>

theorem register_account_false_iff_empty_pool:
  assumes pages: "\<forall>j<length pages. server (Suc j) = Response 200 (Json (JArr (pages ! j)))
                     \<and> page_size \<le> length (pages ! j)"
    and stop: "(failed (server (Suc (length pages))) \<or> empty_page (server (Suc (length pages))))
                 \<and> tail = []
               \<or> short_page (server (Suc (length pages))) tail"
  shows "(\<exists>r st'. register_account server st = Some (r, st')
            \<and> accounts_cache st' = concat pages @ tail
            \<and> ((r = Inr False) = (pages = [] \<and> tail = []))
            \<and> (list_all is_object (concat pages @ tail) \<and> \<not> (pages = [] \<and> tail = []) \<longrightarrow>
                  r = Inr True))
       \<and> (\<forall>srv s r s'. register_account srv s = Some (r, s') \<longrightarrow>
              (r = Inr False) = (accounts_cache s' = []))"
proof (intro conjI)
  show "\<forall>srv s r s'. register_account srv s = Some (r, s') \<longrightarrow>
              (r = Inr False) = (accounts_cache s' = [])"
    using register_account_pool by blast
  let ?pool = "concat pages @ tail"
  have p: "\<forall>j<length pages. server (1 + j) = Response 200 (Json (JArr (pages ! j)))
                     \<and> page_size \<le> length (pages ! j)"
    using pages by simp
  have s: "(failed (server (1 + length pages)) \<or> empty_page (server (1 + length pages)))
                 \<and> tail = []
               \<or> short_page (server (1 + length pages)) tail"
    using stop by simp
  from fetch_from_run [OF p s, of "[]" "log ''info'' st"]
  obtain st1 where f: "fetch_accounts server (log ''info'' st) = Some (?pool, st1)"
    by (auto simp: fetch_accounts_def)
  have empty: "(?pool = []) = (pages = [] \<and> tail = [])"
  proof (cases pages)
    case Nil
    then show ?thesis by simp
  next
    case (Cons pg rest)
    with pages have "page_size \<le> length pg" by force
    then have "pg \<noteq> []" by (auto simp: page_size_def)
    with Cons show ?thesis by simp
  qed
  show "\<exists>r st'. register_account server st = Some (r, st')
            \<and> accounts_cache st' = ?pool
            \<and> ((r = Inr False) = (pages = [] \<and> tail = []))
            \<and> (list_all is_object ?pool \<and> \<not> (pages = [] \<and> tail = []) \<longrightarrow> r = Inr True)"
  proof (cases "?pool = []")
    case True
    with register_account_Some [OF f] empty show ?thesis by auto
  next
    case False
    from f have "register_account server st \<noteq> None"
      by (simp add: register_account_def)
    then obtain r st' where r: "register_account server st = Some (r, st')"
      by (cases "register_account server st") auto
    from register_account_pool [OF r] f False
    have c: "accounts_cache st' = ?pool" and nf: "r \<noteq> Inr False"
      by auto
    have t: "r = Inr True" if "list_all is_object ?pool"
      using register_account_selects [OF f False that, of st] r by auto
    from r c nf t empty False show ?thesis by blast
  qed
qed

text \<open>An empty first page and a failed first request give \<open>False\<close>; one short page
  gives \<open>True\<close> with its three accounts; a full page followed by a failure gives \<open>True\<close>
  with the hundred accounts of the full page; a full page followed by a short one gives
  all hundred and two.\<close>

theorem register_account_false_iff_empty_pool_witness:
  "empty_page (no_accounts (Suc 0))
   \<and> fst (the (register_account no_accounts fresh)) = Inr False
   \<and> accounts_cache (snd (the (register_account no_accounts fresh))) = []
   \<and> failed (down (Suc 0))
   \<and> fst (the (register_account down fresh)) = Inr False
   \<and> accounts_cache (snd (the (register_account down fresh))) = []
   \<and> short_page (three_accounts (Suc 0)) [alice, bob, carol]
   \<and> fst (the (register_account three_accounts fresh)) = Inr True
   \<and> accounts_cache (snd (the (register_account three_accounts fresh))) = [alice, bob, carol]
   \<and> page_size \<le> length (replicate 100 alice)
   \<and> failed (full_then_down (Suc (Suc 0)))
   \<and> fst (the (register_account full_then_down fresh)) = Inr True
   \<and> accounts_cache (snd (the (register_account full_then_down fresh))) = replicate 100 alice
   \<and> short_page (full_then_short (Suc (Suc 0))) [bob, carol]
   \<and> fst (the (register_account full_then_short fresh)) = Inr True
   \<and> accounts_cache (snd (the (register_account full_then_short fresh)))
        = replicate 100 alice @ [bob, carol]"
proof -
  note t = register_account_false_iff_empty_pool
  have none: "\<forall>j<length ([] :: json list list). srv (Suc j) = Response 200 (Json (JArr ([] ! j)))
                     \<and> page_size \<le> length (([] :: json list list) ! j)"
    for srv :: "nat \<Rightarrow> response"
    by simp
  have a1: "empty_page (no_accounts (Suc 0))" by (simp add: empty_page_def no_accounts_def)
  then have "(failed (no_accounts (Suc (length ([] :: json list list))))
                \<or> empty_page (no_accounts (Suc (length ([] :: json list list))))) \<and> [] = ([] :: json list)
             \<or> short_page (no_accounts (Suc (length ([] :: json list list)))) []"
    by simp
  from t [where pages = "[]" and server = no_accounts and tail = "[]" and st = fresh,
      OF none [of no_accounts] this, THEN conjunct1] obtain r1 s1 where
    "register_account no_accounts fresh = Some (r1, s1)" "accounts_cache s1 = []" "r1 = Inr False"
    by auto
  then have a2: "fst (the (register_account no_accounts fresh)) = Inr False"
    "accounts_cache (snd (the (register_account no_accounts fresh))) = []"
    by simp_all
  have b1: "failed (down (Suc 0))" by (simp add: failed_def down_def)
  then have bs: "(failed (down (Suc (length ([] :: json list list))))
                \<or> empty_page (down (Suc (length ([] :: json list list))))) \<and> [] = ([] :: json list)
             \<or> short_page (down (Suc (length ([] :: json list list)))) []"
    by simp
  note td = t [where pages = "[]" and server = down and tail = "[]" and st = fresh,
      OF none [of down] bs]
  from td [THEN conjunct1] obtain r2 s2 where
    d: "register_account down fresh = Some (r2, s2)" and "r2 = Inr False"
    by auto
  moreover from td [THEN conjunct2] d \<open>r2 = Inr False\<close>
  have "accounts_cache s2 = []" by blast
  ultimately have b2: "fst (the (register_account down fresh)) = Inr False"
    "accounts_cache (snd (the (register_account down fresh))) = []"
    by simp_all
  have c1: "short_page (three_accounts (Suc 0)) [alice, bob, carol]"
    by (simp add: short_page_def three_accounts_def page_size_def)
  then have cs: "(failed (three_accounts (Suc (length ([] :: json list list))))
                \<or> empty_page (three_accounts (Suc (length ([] :: json list list)))))
                \<and> [alice, bob, carol] = []
             \<or> short_page (three_accounts (Suc (length ([] :: json list list)))) [alice, bob, carol]"
    by simp
  have co: "list_all is_object (concat [] @ [alice, bob, carol])"
    by (simp add: alice_def bob_def carol_def)
  from t [where pages = "[]" and server = three_accounts and tail = "[alice, bob, carol]"
      and st = fresh, OF none [of three_accounts] cs, THEN conjunct1] co obtain r3 s3 where
    "register_account three_accounts fresh = Some (r3, s3)"
    "accounts_cache s3 = [alice, bob, carol]" "r3 = Inr True"
    by auto
  then have c2: "fst (the (register_account three_accounts fresh)) = Inr True"
    "accounts_cache (snd (the (register_account three_accounts fresh))) = [alice, bob, carol]"
    by simp_all
  let ?pages = "[replicate 100 alice]"
  have e0: "page_size \<le> length (replicate 100 alice)" by (simp add: page_size_def)
  have e1: "\<forall>j<length ?pages. full_then_down (Suc j) = Response 200 (Json (JArr (?pages ! j)))
                     \<and> page_size \<le> length (?pages ! j)"
    by (simp add: full_then_down_def page_size_def)
  have e2: "failed (full_then_down (Suc (Suc 0)))" by (simp add: full_then_down_def failed_def)
  then have es: "(failed (full_then_down (Suc (length ?pages)))
                \<or> empty_page (full_then_down (Suc (length ?pages)))) \<and> [] = ([] :: json list)
             \<or> short_page (full_then_down (Suc (length ?pages))) []"
    by simp
  have eo: "list_all is_object (concat ?pages @ [])" by (simp add: alice_def list_all_iff)
  from t [where pages = ?pages and server = full_then_down and tail = "[]" and st = fresh,
      OF e1 es, THEN conjunct1] eo obtain r4 s4 where
    "register_account full_then_down fresh = Some (r4, s4)"
    "accounts_cache s4 = replicate 100 alice" "r4 = Inr True"
    by auto
  then have e3: "fst (the (register_account full_then_down fresh)) = Inr True"
    "accounts_cache (snd (the (register_account full_then_down fresh))) = replicate 100 alice"
    by simp_all
  have f1: "\<forall>j<length ?pages. full_then_short (Suc j) = Response 200 (Json (JArr (?pages ! j)))
                     \<and> page_size \<le> length (?pages ! j)"
    by (simp add: full_then_short_def page_size_def)
  have f2: "short_page (full_then_short (Suc (Suc 0))) [bob, carol]"
    by (simp add: full_then_short_def short_page_def page_size_def)
  then have fs: "(failed (full_then_short (Suc (length ?pages)))
                \<or> empty_page (full_then_short (Suc (length ?pages)))) \<and> [bob, carol] = []
             \<or> short_page (full_then_short (Suc (length ?pages))) [bob, carol]"
    by simp
  have fo: "list_all is_object (concat ?pages @ [bob, carol])"
    by (simp add: alice_def bob_def carol_def list_all_iff)
  from t [where pages = ?pages and server = full_then_short and tail = "[bob, carol]"
      and st = fresh, OF f1 fs, THEN conjunct1] fo obtain r5 s5 where
    "register_account full_then_short fresh = Some (r5, s5)"
    "accounts_cache s5 = replicate 100 alice @ [bob, carol]" "r5 = Inr True"
    by auto
  then have f3: "fst (the (register_account full_then_short fresh)) = Inr True"
    "accounts_cache (snd (the (register_account full_then_short fresh)))
        = replicate 100 alice @ [bob, carol]"
    by simp_all
  from a1 a2 b1 b2 c1 c2 e0 e2 e3 f2 f3 show ?thesis by blast
qed

lemma register_calls_step:
  assumes "register_calls servers st = Some outs" "k < length outs"
  shows "\<exists>srv. register_account srv ((st # map snd outs) ! k) = Some (outs ! k)"
  using assms
proof (induction servers arbitrary: st outs k)
  case Nil
  then show ?case by simp
next
  case (Cons srv rest)
  from Cons.prems(1) obtain r st' outs' where
    a: "register_account srv st = Some (r, st')" and
    b: "register_calls rest st' = Some outs'" and c: "outs = (r, st') # outs'"
    by (auto split: option.splits)
  show ?case
  proof (cases k)
    case 0
    with a c show ?thesis by auto
  next
    case (Suc k')
    with Cons.prems(2) c have "k' < length outs'" by simp
    from Cons.IH [OF b this] Suc c show ?thesis by auto
  qed
qed

text \<open>
  Claim C9. In any run of \<^verbatim>\<open>register_account\<close> calls, whatever pool each call fetches,
  a call that returns \<open>True\<close> takes the account at position (index stored before the
  call) mod (size of the pool it fetched), sets the session's email and account id from
  it, and leaves a stored index that lies in \<open>[0, size)\<close>.
\<close>

theorem account_index_modulo_pool_size:
  assumes "register_calls servers st = Some outs" "k < length outs" "fst (outs ! k) = Inr True"
  shows "let before = (st # map snd outs) ! k; after = snd (outs ! k);
             pool = accounts_cache after; total = int (length pool);
             index = account_index before mod total
         in pool \<noteq> []
          \<and> py_get (pool ! nat index) ''email'' = Inr (email after)
          \<and> py_get (pool ! nat index) ''id'' = Inr (account_id after)
          \<and> account_index after = (index + 1) mod total
          \<and> 0 \<le> account_index after \<and> account_index after < total"
proof -
  from register_calls_step [OF assms(1,2)] obtain srv where
    "register_account srv ((st # map snd outs) ! k) = Some (outs ! k)" by blast
  with assms(3) have "register_account srv ((st # map snd outs) ! k) = Some (Inr True, snd (outs ! k))"
    by (metis prod.collapse)
  from register_account_True [OF this] show ?thesis
    by (auto simp: Let_def)
qed

text \<open>
  Three calls, the third against a pool that shrank from three accounts to two: the
  index stored before it is 2, it takes position \<open>2 mod 2 = 0\<close> and stores 1.
\<close>

theorem account_index_modulo_pool_size_witness:
  "changing_pools = Some (the changing_pools)
   \<and> 2 < length (the changing_pools)
   \<and> fst (the changing_pools ! 2) = Inr True
   \<and> account_index ((fresh # map snd (the changing_pools)) ! 2) = 2
   \<and> accounts_cache (snd (the changing_pools ! 2)) = [alice, bob]
   \<and> email (snd (the changing_pools ! 2)) = JStr ''alice@example.org''
   \<and> account_id (snd (the changing_pools ! 2)) = JInt 1
   \<and> account_index (snd (the changing_pools ! 2)) = 1"
proof -
  have ev: "map (\<lambda>out. (fst out, account_index (snd out), accounts_cache (snd out)))
              (the changing_pools)
      = [(Inr True, 1, [alice, bob, carol]), (Inr True, 2, [alice, bob, carol]),
         (Inr True, 1, [alice, bob])]"
    by code_simp
  have "length (map (\<lambda>out. (fst out, account_index (snd out), accounts_cache (snd out)))
              (the changing_pools)) = Suc (Suc (Suc 0))"
    by (simp only: ev list.size)
  then have "length (the changing_pools) = Suc (Suc (Suc 0))"
    by (simp only: length_map)
  then obtain a b c where abc: "the changing_pools = [a, b, c]"
    by (auto simp: length_Suc_conv)
  from ev abc have k: "2 < length (the changing_pools)"
    and ok: "fst (the changing_pools ! 2) = Inr True"
    and before: "account_index ((fresh # map snd (the changing_pools)) ! 2) = 2"
    and pool: "accounts_cache (snd (the changing_pools ! 2)) = [alice, bob]"
    by simp_all
  have some: "changing_pools = Some (the changing_pools)"
    by code_simp
  then have run: "register_calls [three_accounts, three_accounts, two_accounts] fresh
      = Some (the changing_pools)"
    by (simp only: changing_pools_def)
  note t = account_index_modulo_pool_size [OF run k ok]
  have "py_get alice ''email'' = Inr (email (snd (the changing_pools ! 2)))
     \<and> py_get alice ''id'' = Inr (account_id (snd (the changing_pools ! 2)))
     \<and> account_index (snd (the changing_pools ! 2)) = 1"
    using t unfolding Let_def before pool by simp
  then have "email (snd (the changing_pools ! 2)) = JStr ''alice@example.org''
    \<and> account_id (snd (the changing_pools ! 2)) = JInt 1
    \<and> account_index (snd (the changing_pools ! 2)) = 1"
    by (simp add: alice_def)
  with some k ok before pool show ?thesis by blast
qed

lemma round_robin_run:
  assumes f: "fetch_accounts server st0 = Some (pool, st0')"
    and ne: "pool \<noteq> []"
    and objs: "list_all is_object pool"
  shows "\<exists>outs. register_calls (replicate n server) st = Some outs \<and> length outs = n
     \<and> (\<forall>j<n. fst (outs ! j) = Inr True \<and> accounts_cache (snd (outs ! j)) = pool
          \<and> py_get (pool ! ((nat (account_index st mod int (length pool)) + j) mod length pool)) ''email''
              = Inr (email (snd (outs ! j)))
          \<and> py_get (pool ! ((nat (account_index st mod int (length pool)) + j) mod length pool)) ''id''
              = Inr (account_id (snd (outs ! j))))"
proof (induction n arbitrary: st)
  case 0
  then show ?case by simp
next
  case (Suc n)
  let ?N = "length pool"
  let ?i = "nat (account_index st mod int ?N)"
  have N: "0 < ?N" using ne by simp
  have i: "?i < ?N" using N by (simp add: nat_less_iff)
  from register_account_selects [OF f ne objs, of st] obtain st' where
    r: "register_account server st = Some (Inr True, st')" and
    c: "accounts_cache st' = pool" and
    e: "py_get (pool ! ?i) ''email'' = Inr (email st')" and
    d: "py_get (pool ! ?i) ''id'' = Inr (account_id st')" and
    x: "account_index st' = (account_index st mod int ?N + 1) mod int ?N"
    by blast
  have "0 \<le> account_index st mod int ?N" using N by simp
  then have "int ?i = account_index st mod int ?N" by simp
  then have "account_index st' mod int ?N = int ((?i + 1) mod ?N)"
    using x by (simp add: zmod_int add.commute)
  then have i': "nat (account_index st' mod int ?N) = (?i + 1) mod ?N"
    by simp
  from Suc.IH [of st'] obtain outs where
    o: "register_calls (replicate n server) st' = Some outs" "length outs = n" and
    a: "\<forall>j<n. fst (outs ! j) = Inr True \<and> accounts_cache (snd (outs ! j)) = pool
          \<and> py_get (pool ! (((?i + 1) mod ?N + j) mod ?N)) ''email'' = Inr (email (snd (outs ! j)))
          \<and> py_get (pool ! (((?i + 1) mod ?N + j) mod ?N)) ''id'' = Inr (account_id (snd (outs ! j)))"
    unfolding i' by blast
  have shift: "\<And>j. ((?i + 1) mod ?N + j) mod ?N = (?i + Suc j) mod ?N"
    by (simp add: mod_add_left_eq)
  let ?outs = "(Inr True, st') # outs"
  have "register_calls (replicate (Suc n) server) st = Some ?outs"
    using r o by simp
  moreover have "length ?outs = Suc n" using o by simp
  moreover have "\<forall>j<Suc n. fst (?outs ! j) = Inr True \<and> accounts_cache (snd (?outs ! j)) = pool
          \<and> py_get (pool ! ((?i + j) mod ?N)) ''email'' = Inr (email (snd (?outs ! j)))
          \<and> py_get (pool ! ((?i + j) mod ?N)) ''id'' = Inr (account_id (snd (?outs ! j)))"
  proof (intro allI impI)
    fix j assume "j < Suc n"
    show "fst (?outs ! j) = Inr True \<and> accounts_cache (snd (?outs ! j)) = pool
          \<and> py_get (pool ! ((?i + j) mod ?N)) ''email'' = Inr (email (snd (?outs ! j)))
          \<and> py_get (pool ! ((?i + j) mod ?N)) ''id'' = Inr (account_id (snd (?outs ! j)))"
    proof (cases j)
      case 0
      with c e d i show ?thesis by simp
    next
      case (Suc j')
      with \<open>j < Suc n\<close> have "j' < n" by simp
      with a shift Suc show ?thesis by simp
    qed
  qed
  ultimately show ?case by blast
qed

lemma mset_rotate_eq: "mset (rotate n xs) = mset xs"
  by (metis append_take_drop_id mset_append union_commute rotate_drop_take)

text \<open>
  Claim C1. When the server keeps answering with the same pool of \<open>N \<ge> 1\<close> accounts,
  \<open>N\<close> calls of \<^verbatim>\<open>register_account\<close> in a row all return \<open>True\<close>, and call number \<open>j\<close>
  sets the session's email and account id to those of the \<open>j\<close>-th account of the pool
  rotated to start at (stored index mod \<open>N\<close>): the \<open>N\<close> calls go through a rotation of
  the pool, which holds every account of the pool exactly once.
\<close>

theorem round_robin_visits_every_account_once:
  assumes "fetch_accounts server st0 = Some (pool, st0')"
    and "pool \<noteq> []"
    and "list_all is_object pool"
  shows "\<exists>outs. register_calls (replicate (length pool) server) st = Some outs
     \<and> length outs = length pool
     \<and> (\<forall>j<length pool.
          let account = rotate (nat (account_index st mod int (length pool))) pool ! j;
              session = snd (outs ! j)
          in fst (outs ! j) = Inr True
           \<and> py_get account ''email'' = Inr (email session)
           \<and> py_get account ''id'' = Inr (account_id session))
     \<and> mset (rotate (nat (account_index st mod int (length pool))) pool) = mset pool"
proof -
  from round_robin_run [OF assms, of "length pool" st] obtain outs where
    o: "register_calls (replicate (length pool) server) st = Some outs" "length outs = length pool" and
    a: "\<forall>j<length pool. fst (outs ! j) = Inr True \<and> accounts_cache (snd (outs ! j)) = pool
          \<and> py_get (pool ! ((nat (account_index st mod int (length pool)) + j) mod length pool)) ''email''
              = Inr (email (snd (outs ! j)))
          \<and> py_get (pool ! ((nat (account_index st mod int (length pool)) + j) mod length pool)) ''id''
              = Inr (account_id (snd (outs ! j)))"
    by blast
  have "\<forall>j<length pool.
          let account = rotate (nat (account_index st mod int (length pool))) pool ! j;
              session = snd (outs ! j)
          in fst (outs ! j) = Inr True
           \<and> py_get account ''email'' = Inr (email session)
           \<and> py_get account ''id'' = Inr (account_id session)"
    using a by (simp add: Let_def nth_rotate)
  with o show ?thesis by (simp add: mset_rotate_eq)
qed


theorem round_robin_visits_every_account_once_witness:
  "fetch_accounts three_accounts fresh
     = Some ([alice, bob, carol], snd (the (fetch_accounts three_accounts fresh)))
   \<and> [alice, bob, carol] \<noteq> []
   \<and> list_all is_object [alice, bob, carol]
   \<and> map (\<lambda>out. (fst out, email (snd out), account_id (snd out))) (the three_rounds)
       = [(Inr True, JStr ''alice@example.org'', JInt 1),
          (Inr True, JStr ''bob@example.org'', JInt 2),
          (Inr True, JStr ''carol@example.org'', JInt 3)]"
proof -
  have f: "fetch_accounts three_accounts fresh
     = Some ([alice, bob, carol], snd (the (fetch_accounts three_accounts fresh)))"
    by (simp add: fetch_accounts_def fetch_accounts_from.simps fetch_page_def request_def
        three_accounts_def page_size_def)
  have ne: "[alice, bob, carol] \<noteq> []" by simp
  have ob: "list_all is_object [alice, bob, carol]"
    by (simp add: alice_def bob_def carol_def)
  let ?pool = "[alice, bob, carol]"
  from round_robin_visits_every_account_once [OF f ne ob, of fresh] obtain outs where
    run0: "register_calls (replicate (length ?pool) three_accounts) fresh = Some outs" and
    len0: "length outs = length ?pool" and
    sel0: "\<forall>j<length ?pool.
          let account = rotate (nat (account_index fresh mod int (length ?pool))) ?pool ! j;
              session = snd (outs ! j)
          in fst (outs ! j) = Inr True
           \<and> py_get account ''email'' = Inr (email session)
           \<and> py_get account ''id'' = Inr (account_id session)"
    by blast
  have r0: "rotate (nat (account_index fresh mod int (length ?pool))) ?pool = ?pool"
    by (simp add: fresh_def)
  have "fst (outs ! 0) = Inr True \<and> email (snd (outs ! 0)) = JStr ''alice@example.org''
      \<and> account_id (snd (outs ! 0)) = JInt 1"
    using sel0 [rule_format, of 0] unfolding r0 by (simp add: Let_def alice_def)
  moreover have "fst (outs ! 1) = Inr True \<and> email (snd (outs ! 1)) = JStr ''bob@example.org''
      \<and> account_id (snd (outs ! 1)) = JInt 2"
    using sel0 [rule_format, of 1] unfolding r0 by (simp add: Let_def bob_def)
  moreover have "fst (outs ! 2) = Inr True \<and> email (snd (outs ! 2)) = JStr ''carol@example.org''
      \<and> account_id (snd (outs ! 2)) = JInt 3"
    using sel0 [rule_format, of 2] unfolding r0 by (simp add: Let_def carol_def)
  moreover from len0 have "length outs = Suc (Suc (Suc 0))" by simp
  then obtain a b c where "outs = [a, b, c]"
    by (auto simp: length_Suc_conv)
  ultimately have m: "map (\<lambda>out. (fst out, email (snd out), account_id (snd out))) outs
       = [(Inr True, JStr ''alice@example.org'', JInt 1),
          (Inr True, JStr ''bob@example.org'', JInt 2),
          (Inr True, JStr ''carol@example.org'', JInt 3)]"
    by simp
  have "replicate (length ?pool) three_accounts = [three_accounts, three_accounts, three_accounts]"
    by simp
  with run0 have t: "the three_rounds = outs" by (simp only: three_rounds_def option.sel)
  show ?thesis unfolding t using m f ne ob by blast
qed

text \<open>
  Claim C10. When \<^verbatim>\<open>register_account\<close> returns \<open>False\<close>, the session's email and account
  id and the stored index are what they were before the call, the fetch gave no account,
  and the shared cache is empty afterwards, whatever it held before.
\<close>

theorem register_account_failure_keeps_session:
  assumes "register_account server st = Some (Inr False, st')"
  shows "email st' = email st \<and> account_id st' = account_id st
         \<and> account_index st' = account_index st \<and> accounts_cache st' = []
         \<and> (\<exists>st1. fetch_accounts server (log ''info'' st) = Some ([], st1))"
proof -
  from assms obtain pool st1 where f: "fetch_accounts server (log ''info'' st) = Some (pool, st1)"
    by (auto simp: register_account_def split: option.splits)
  from register_account_Some [OF f] assms have "pool = []"
    by (auto simp: Let_def split: if_splits sum.splits)
  with register_account_Some [OF f] assms f show ?thesis by auto
qed

text \<open>
  The call below finds the service down while the cache holds two accounts and a session
  is selected: it returns \<open>False\<close>, the session stays, the cache is emptied.
\<close>

theorem register_account_failure_keeps_session_witness:
  "register_account down (fresh\<lparr>accounts_cache := [alice, bob], email := JStr ''bob@example.org'',
                               account_id := JInt 2, account_index := 1\<rparr>)
     = Some (Inr False,
             \<lparr>account_index = 1, accounts_cache = [], email = JStr ''bob@example.org'',
              account_id = JInt 2,
              trace = [Log ''info'', Log ''info'', Request (Accounts 1), Log ''error'',
                       Log ''error'']\<rparr>)"
proof -
  let ?st = "fresh\<lparr>accounts_cache := [alice, bob], email := JStr ''bob@example.org'',
                   account_id := JInt 2, account_index := 1\<rparr>"
  obtain st' where run: "register_account down ?st = Some (Inr False, st')"
    and tr: "trace st' = [Log ''info'', Log ''info'', Request (Accounts 1), Log ''error'',
                       Log ''error'']"
    by (simp add: register_account_def fetch_accounts_def fetch_accounts_from.simps
        fetch_page_def request_def log_def down_def fresh_def)
  from register_account_failure_keeps_session [OF run]
  have "email st' = JStr ''bob@example.org''" "account_id st' = JInt 2"
    "account_index st' = 1" "accounts_cache st' = []"
    by (simp_all add: fresh_def)
  with tr have "st' = \<lparr>account_index = 1, accounts_cache = [], email = JStr ''bob@example.org'',
              account_id = JInt 2,
              trace = [Log ''info'', Log ''info'', Request (Accounts 1), Log ''error'',
                       Log ''error'']\<rparr>"
    by (cases st') simp
  with run show ?thesis by simp
qed

section \<open>Facts about the message lister and the scan\<close>

lemma list_emails_try_cases:
  "fst (list_emails_try address resp st) =
     (case resp of
        Transport_error \<Rightarrow> Inl ConnectionError
      | Response status_code body \<Rightarrow>
          if status_code \<noteq> 200 then Inr []
          else (case json_or body (JObj []) of
                  Inl e \<Rightarrow> Inl e
                | Inr payload \<Rightarrow>
                    (case py_get payload ''success'' of
                       Inl e \<Rightarrow> Inl e
                     | Inr success \<Rightarrow>
                         if \<not> truthy success then Inr []
                         else (case py_get payload ''emails'' of
                                 Inl e \<Rightarrow> Inl e
                               | Inr emails \<Rightarrow> py_iter (py_or emails (JArr [])))))) "
  by (auto simp: list_emails_try_def request_def Let_def split: response.splits sum.splits)

lemma list_emails_value:
  "fst (list_emails address resp st) =
     (case fst (list_emails_try address resp st) of Inl e \<Rightarrow> Inr [] | Inr xs \<Rightarrow> Inr xs)"
  by (auto simp: list_emails_def split: prod.splits sum.splits)

text \<open>
  Claim C8. \<^verbatim>\<open>_list_emails\<close> never raises. It returns the empty list when the request
  raises, when the status is not 200, when anything in its \<^verbatim>\<open>try\<close> block raises, and when
  the payload's \<open>success\<close> is not true (absent, \<open>null\<close>, \<open>false\<close>: Python's truth value is
  what is tested); on status 200 with a true \<open>success\<close> it returns the payload's list of
  \<open>emails\<close>.
\<close>

theorem list_emails_never_raises:
  "(\<exists>xs. fst (list_emails address resp st) = Inr xs)
   \<and> (resp = Transport_error \<longrightarrow> fst (list_emails address resp st) = Inr [])
   \<and> (resp = Response status_code body \<and> status_code \<noteq> 200 \<longrightarrow>
        fst (list_emails address resp st) = Inr [])
   \<and> (fst (list_emails_try address resp st) = Inl e \<longrightarrow>
        fst (list_emails address resp st) = Inr [])
   \<and> (resp = Response 200 (Json (JObj payload)) \<and> \<not> truthy (field (JObj payload) ''success'') \<longrightarrow>
        fst (list_emails address resp st) = Inr [])
   \<and> (resp = Response 200 (Json (JObj payload)) \<and> truthy (field (JObj payload) ''success'')
        \<and> field (JObj payload) ''emails'' = JArr emails \<longrightarrow>
        fst (list_emails address resp st) = Inr emails)"
proof (intro conjI impI)
  show "\<exists>xs. fst (list_emails address resp st) = Inr xs"
    by (simp add: list_emails_value split: sum.splits)
  show "fst (list_emails address resp st) = Inr []" if "resp = Transport_error"
    using that by (simp add: list_emails_value list_emails_try_cases)
  show "fst (list_emails address resp st) = Inr []"
    if "resp = Response status_code body \<and> status_code \<noteq> 200"
    using that by (simp add: list_emails_value list_emails_try_cases)
  show "fst (list_emails address resp st) = Inr []"
    if "fst (list_emails_try address resp st) = Inl e"
    using that by (simp add: list_emails_value)
  show "fst (list_emails address resp st) = Inr []"
    if "resp = Response 200 (Json (JObj payload)) \<and> \<not> truthy (field (JObj payload) ''success'')"
    using that by (simp add: list_emails_value list_emails_try_cases field_def)
  show "fst (list_emails address resp st) = Inr emails"
    if "resp = Response 200 (Json (JObj payload)) \<and> truthy (field (JObj payload) ''success'')
        \<and> field (JObj payload) ''emails'' = JArr emails"
    using that by (cases emails) (simp_all add: list_emails_value list_emails_try_cases field_def py_or_def)
qed

text \<open>The lister on a refused connection, a 503, an undecodable body, a payload with
  \<open>success\<close> false, and a good payload.\<close>

theorem list_emails_never_raises_witness:
  "fst (list_emails (JStr ''alice@example.org'') Transport_error fresh) = Inr []
   \<and> fst (list_emails (JStr ''alice@example.org'') (Response 503 No_content) fresh) = Inr []
   \<and> fst (list_emails_try (JStr ''alice@example.org'') (Response 200 Bad_json) fresh)
        = Inl JSONDecodeError
   \<and> fst (list_emails (JStr ''alice@example.org'') (Response 200 Bad_json) fresh) = Inr []
   \<and> fst (list_emails (JStr ''alice@example.org'')
        (Response 200 (Json (JObj [(''success'', JBool False), (''emails'', JArr [mail_11])])))
        fresh) = Inr []
   \<and> fst (list_emails (JStr ''alice@example.org'') (inbox_of [mail_11]) fresh) = Inr [mail_11]"
proof -
  let ?a = "JStr ''alice@example.org''"
  have 1: "fst (list_emails ?a Transport_error fresh) = Inr []"
    using list_emails_never_raises [where resp = Transport_error and address = ?a and st = fresh]
    by blast
  have 2: "fst (list_emails ?a (Response 503 No_content) fresh) = Inr []"
    using list_emails_never_raises [where resp = "Response 503 No_content" and address = ?a
        and st = fresh and status_code = 503 and body = No_content]
    by simp
  have 3: "fst (list_emails_try ?a (Response 200 Bad_json) fresh) = Inl JSONDecodeError"
    by (simp add: list_emails_try_def request_def)
  have 4: "fst (list_emails ?a (Response 200 Bad_json) fresh) = Inr []"
    using list_emails_never_raises [where resp = "Response 200 Bad_json" and address = ?a
        and st = fresh and e = JSONDecodeError] 3
    by blast
  let ?no = "[(''success'', JBool False), (''emails'', JArr [mail_11])]"
  have "\<not> truthy (field (JObj ?no) ''success'')" by (simp add: field_def)
  then have 5: "fst (list_emails ?a (Response 200 (Json (JObj ?no))) fresh) = Inr []"
    using list_emails_never_raises [where resp = "Response 200 (Json (JObj ?no))"
        and address = ?a and st = fresh and payload = ?no]
    by blast
  let ?yes = "[(''success'', JBool True), (''emails'', JArr [mail_11])]"
  have "truthy (field (JObj ?yes) ''success'') \<and> field (JObj ?yes) ''emails'' = JArr [mail_11]"
    by (simp add: field_def)
  then have "fst (list_emails ?a (Response 200 (Json (JObj ?yes))) fresh) = Inr [mail_11]"
    using list_emails_never_raises [where resp = "Response 200 (Json (JObj ?yes))"
        and address = ?a and st = fresh and payload = ?yes and emails = "[mail_11]"]
    by blast
  then have 6: "fst (list_emails ?a (inbox_of [mail_11]) fresh) = Inr [mail_11]"
    by (simp add: inbox_of_def)
  from 1 2 3 4 5 6 show ?thesis by blast
qed

text \<open>
  Claim C5. With no email selected, \<^verbatim>\<open>fetch_verification_code\<close> returns \<open>None\<close>, whatever
  the extractor, the clock, the service's answer, \<open>since_time\<close> and the rest of the state
  are; it logs one error and sends no request.
\<close>

theorem fetch_without_email_is_none:
  assumes "email st = JNull"
  shows "fetch_verification_code extract_code local_time resp since_time st
           = (Inr JNull, st\<lparr>trace := trace st @ [Log ''error'']\<rparr>)"
  using assms by (simp add: fetch_verification_code_def log_def)

text \<open>A fresh client, with an inbox that holds a code: nothing is fetched.\<close>

theorem fetch_without_email_is_none_witness:
  "email fresh = JNull
   \<and> fetch_verification_code six_digits clock (inbox_of [mail_11]) None fresh
        = (Inr JNull, fresh\<lparr>trace := [Log ''error'']\<rparr>)"
proof -
  have h: "email fresh = JNull" by (simp add: fresh_def)
  from fetch_without_email_is_none [OF h, of six_digits clock "inbox_of [mail_11]" None] h
  show ?thesis by (simp add: fresh_def)
qed

lemma py_get_field: "is_object m \<Longrightarrow> py_get m k = Inr (field m k)"
  by (cases m) (auto simp: field_def)

lemma py_or_text: "text_or_none v \<Longrightarrow> py_or v (JStr []) = JStr (text_of v)"
  by (cases v) (auto simp: py_or_def)

lemma sort_key_message: "is_message m \<Longrightarrow> sort_key m = Inr (JStr (time_key m))"
  by (simp add: sort_key_def is_message_def py_get_field py_or_text time_key_def)

lemma keyed_messages:
  "list_all is_message msgs \<Longrightarrow> keyed msgs = Inr (map (\<lambda>m. (JStr (time_key m), m)) msgs)"
  by (induction msgs) (simp_all add: sort_key_message)

lemma insert_desc_text:
  assumes "\<forall>p\<in>set ps. fst p = JStr (time_key (snd p))" "fst x = JStr (time_key (snd x))"
    "sorted_wrt (\<lambda>a b. time_key (snd b) \<le> time_key (snd a)) ps"
  shows "\<exists>r. insert_desc x ps = Inr r \<and> mset r = add_mset x (mset ps)
     \<and> sorted_wrt (\<lambda>a b. time_key (snd b) \<le> time_key (snd a)) r
     \<and> (\<forall>k. filter (\<lambda>p. time_key (snd p) = k) r
          = (if time_key (snd x) = k then x # filter (\<lambda>p. time_key (snd p) = k) ps
             else filter (\<lambda>p. time_key (snd p) = k) ps))"
  using assms
proof (induction ps)
  case Nil
  then show ?case by simp
next
  case (Cons y ys)
  from Cons.prems have ky: "fst y = JStr (time_key (snd y))" by simp
  show ?case
  proof (cases "time_key (snd x) < time_key (snd y)")
    case True
    from Cons.IH Cons.prems obtain r where
      r: "insert_desc x ys = Inr r" "mset r = add_mset x (mset ys)"
         "sorted_wrt (\<lambda>a b. time_key (snd b) \<le> time_key (snd a)) r"
         "\<forall>k. filter (\<lambda>p. time_key (snd p) = k) r
          = (if time_key (snd x) = k then x # filter (\<lambda>p. time_key (snd p) = k) ys
             else filter (\<lambda>p. time_key (snd p) = k) ys)"
      by auto
    have "set r = insert x (set ys)" using r(2) by (metis set_mset_add_mset_insert set_mset_mset)
    with r True Cons.prems ky show ?thesis
      by (auto simp: less_imp_le)
  next
    case False
    then have ins: "insert_desc x (y # ys) = Inr (x # y # ys)"
      using Cons.prems(2) ky by simp
    from False have le: "time_key (snd y) \<le> time_key (snd x)" by simp
    have "\<forall>p\<in>set ys. time_key (snd p) \<le> time_key (snd x)"
      using Cons.prems(3) le by (auto intro: order_trans)
    with ins le Cons.prems(3) show ?thesis by auto
  qed
qed

lemma sort_desc_text:
  assumes "\<forall>p\<in>set ps. fst p = JStr (time_key (snd p))"
  shows "\<exists>r. sort_desc ps = Inr r \<and> mset r = mset ps
     \<and> sorted_wrt (\<lambda>a b. time_key (snd b) \<le> time_key (snd a)) r
     \<and> (\<forall>k. filter (\<lambda>p. time_key (snd p) = k) r = filter (\<lambda>p. time_key (snd p) = k) ps)"
  using assms
proof (induction ps)
  case Nil
  then show ?case by simp
next
  case (Cons x xs)
  then obtain r where r: "sort_desc xs = Inr r" "mset r = mset xs"
     "sorted_wrt (\<lambda>a b. time_key (snd b) \<le> time_key (snd a)) r"
     "\<forall>k. filter (\<lambda>p. time_key (snd p) = k) r = filter (\<lambda>p. time_key (snd p) = k) xs"
    by auto
  have "set r = set xs" using r(2) by (metis set_mset_mset)
  with Cons.prems have a: "\<forall>p\<in>set r. fst p = JStr (time_key (snd p))" by simp
  from Cons.prems have b: "fst x = JStr (time_key (snd x))" by simp
  from insert_desc_text [OF a b r(3)] r show ?case by auto
qed

lemma sorted_newest_first_messages:
  assumes "list_all is_message msgs"
  shows "\<exists>sorted_msgs. sorted_newest_first msgs = Inr sorted_msgs
     \<and> mset sorted_msgs = mset msgs
     \<and> sorted_wrt (\<lambda>a b. time_key b \<le> time_key a) sorted_msgs
     \<and> (\<forall>k. filter (\<lambda>m. time_key m = k) sorted_msgs = filter (\<lambda>m. time_key m = k) msgs)"
proof -
  let ?ps = "map (\<lambda>m. (JStr (time_key m), m)) msgs"
  have "\<forall>p\<in>set ?ps. fst p = JStr (time_key (snd p))" by auto
  from sort_desc_text [OF this] obtain r where r: "sort_desc ?ps = Inr r" "mset r = mset ?ps"
     "sorted_wrt (\<lambda>a b. time_key (snd b) \<le> time_key (snd a)) r"
     "\<forall>k. filter (\<lambda>p. time_key (snd p) = k) r = filter (\<lambda>p. time_key (snd p) = k) ?ps"
    by blast
  have 1: "sorted_newest_first msgs = Inr (map snd r)"
    using r(1) keyed_messages [OF assms] by (simp add: sorted_newest_first_def)
  have "mset (map snd r) = mset (map snd ?ps)" using r(2) by (metis mset_map)
  then have 2: "mset (map snd r) = mset msgs" by (simp add: comp_def)
  have 3: "sorted_wrt (\<lambda>a b. time_key b \<le> time_key a) (map snd r)"
    using r(3) by (simp add: sorted_wrt_map)
  have 4: "filter (\<lambda>m. time_key m = k) (map snd r) = filter (\<lambda>m. time_key m = k) msgs" for k
  proof -
    have "filter (\<lambda>m. time_key m = k) (map snd r) = map snd (filter (\<lambda>p. time_key (snd p) = k) r)"
      by (simp add: filter_map comp_def)
    also have "\<dots> = map snd (filter (\<lambda>p. time_key (snd p) = k) ?ps)" using r(4) by simp
    also have "\<dots> = filter (\<lambda>m. time_key m = k) msgs"
      by (simp add: filter_map comp_def)
    finally show ?thesis .
  qed
  from 1 2 3 4 show ?thesis by blast
qed

lemma skip_message_object:
  "is_object m \<Longrightarrow> skip_message local_time since_time m = Inr (\<not> passes local_time since_time m)"
  by (cases m) (auto simp: passes_def skip_message_def split: option.splits sum.splits)

lemma message_content_text:
  "is_message m \<Longrightarrow> message_content m = Inr (JStr (message_text m))"
  by (simp add: message_content_def is_message_def py_get_field py_or_text message_text_def)

lemma subject_slice:
  "is_message m \<Longrightarrow> \<exists>v. py_get m ''subject'' = Inr v \<and> (\<exists>shown. py_slice 50 (py_or v (JStr [])) = Inr shown)"
  by (simp add: is_message_def py_get_field py_or_text)

lemma scan_messages:
  assumes "list_all is_message msgs" "\<forall>s. \<exists>c. extract_code (JStr s) = Inr c"
  shows "fst (scan extract_code local_time since_time msgs skipped st)
     = Inr (case find (\<lambda>m. truthy (code_of extract_code m)) (filter (passes local_time since_time) msgs) of
              None \<Rightarrow> None
            | Some m \<Rightarrow> Some (code_of extract_code m))"
  using assms(1)
proof (induction msgs arbitrary: skipped st)
  case Nil
  then show ?case by simp
next
  case (Cons m msgs)
  then have m: "is_message m" and rest: "list_all is_message msgs" by simp_all
  from m have obj: "is_object m" by (simp add: is_message_def)
  obtain c where c: "extract_code (JStr (message_text m)) = Inr c" using assms(2) by blast
  then have code: "code_of extract_code m = c" by (simp add: code_of_def)
  obtain v shown where sub: "py_get m ''subject'' = Inr v" "py_slice 50 (py_or v (JStr [])) = Inr shown"
    using subject_slice [OF m] by blast
  show ?case
  proof (cases "passes local_time since_time m")
    case False
    with Cons.IH [OF rest] skip_message_object [OF obj, of local_time since_time]
    show ?thesis by simp
  next
    case True
    with Cons.IH [OF rest] skip_message_object [OF obj, of local_time since_time]
      sub message_content_text [OF m] c code
    show ?thesis by simp
  qed
qed

lemma list_emails_state_indep:
  "fst (list_emails address resp st) = fst (list_emails address' resp st')"
  by (simp add: list_emails_value list_emails_try_cases)

lemma fetch_result:
  assumes "truthy (email st)"
    and "fst (list_emails (email st) resp st) = Inr msgs"
    and "sorted_newest_first msgs = Inr sorted_msgs"
    and "list_all is_message sorted_msgs"
    and "\<forall>s. \<exists>c. extract_code (JStr s) = Inr c"
  shows "fst (fetch_verification_code extract_code local_time resp since_time st)
     = Inr (first_code extract_code (filter (passes local_time since_time) sorted_msgs))"
proof -
  have l: "fst (list_emails (email st) resp (log ''info'' st)) = Inr msgs"
    using assms(2) list_emails_state_indep by metis
  then obtain st1 where l1: "list_emails (email st) resp (log ''info'' st) = (Inr msgs, st1)"
    by (metis prod.collapse)
  show ?thesis
  proof (cases "msgs = []")
    case True
    with assms(3) have "sorted_msgs = []" by (simp add: sorted_newest_first_def)
    with True l1 assms(1) show ?thesis
      by (simp add: fetch_verification_code_def fetch_try_def first_code_def)
  next
    case False
    let ?sc = "scan extract_code local_time since_time sorted_msgs 0 (log ''info'' st1)"
    from scan_messages [OF assms(4,5), of local_time since_time 0 "log ''info'' st1"]
    have sc: "fst ?sc = Inr (case find (\<lambda>m. truthy (code_of extract_code m))
                 (filter (passes local_time since_time) sorted_msgs) of
              None \<Rightarrow> None | Some m \<Rightarrow> Some (code_of extract_code m))" .
    obtain r k st2 where sc2: "?sc = (r, k, st2)" by (metis prod.exhaust)
    with sc False l1 assms(1,3) show ?thesis
      by (auto simp: fetch_verification_code_def fetch_try_def first_code_def split: option.splits)
  qed
qed

lemma list_all_mset: "mset xs = mset ys \<Longrightarrow> list_all P xs = list_all P ys"
  by (metis list_all_iff set_mset_mset)



lemma passes_naive:
  "is_object m \<Longrightarrow> passes local_time (Some (Naive since)) m = (\<not> earlier local_time since m)"
  by (cases m)
     (auto simp: passes_def skip_message_def earlier_def message_time_def field_def older_try_def
           split: option.splits sum.splits json.splits)

text \<open>
  Claim C4, for a naive \<open>since_time\<close>. The filter skips a message exactly when its
  \<open>received_time\<close> is a non-empty text that the library reads as a time strictly before
  \<open>since_time\<close>; a message whose time is missing or unreadable is not skipped, and the
  filter does not raise. The answer of \<^verbatim>\<open>fetch_verification_code\<close> is the first code
  among the messages that are not earlier than \<open>since_time\<close>.
\<close>

theorem since_time_filter:
  assumes "truthy (email st)"
    and "fst (list_emails (email st) resp st) = Inr msgs"
    and "list_all is_message msgs"
    and "\<forall>s. \<exists>c. extract_code (JStr s) = Inr c"
  shows "(\<forall>m. is_object m \<longrightarrow>
            skip_message local_time (Some (Naive since)) m = Inr (earlier local_time since m))
     \<and> (\<forall>m. is_object m \<and> message_time local_time m = None \<longrightarrow>
            skip_message local_time (Some (Naive since)) m = Inr False)
     \<and> (\<exists>sorted_msgs. sorted_newest_first msgs = Inr sorted_msgs
          \<and> fst (fetch_verification_code extract_code local_time resp (Some (Naive since)) st)
              = Inr (first_code extract_code (filter (\<lambda>m. \<not> earlier local_time since m) sorted_msgs)))"
proof (intro conjI allI impI)
  show "skip_message local_time (Some (Naive since)) m = Inr (earlier local_time since m)"
    if "is_object m" for m
    using skip_message_object [OF that, of local_time "Some (Naive since)"] passes_naive [OF that]
    by simp
  then show "skip_message local_time (Some (Naive since)) m = Inr False"
    if "is_object m \<and> message_time local_time m = None" for m
    using that by (simp add: earlier_def)
  from sorted_newest_first_messages [OF assms(3)] obtain sorted_msgs where
    s: "sorted_newest_first msgs = Inr sorted_msgs" "mset sorted_msgs = mset msgs"
    by blast
  from s(2) assms(3) have ms: "list_all is_message sorted_msgs" using list_all_mset by blast
  then have "\<forall>m\<in>set sorted_msgs. is_object m" by (simp add: list_all_iff is_message_def)
  then have "filter (passes local_time (Some (Naive since))) sorted_msgs
      = filter (\<lambda>m. \<not> earlier local_time since m) sorted_msgs"
    by (intro filter_cong) (simp_all add: passes_naive)
  with fetch_result [OF assms(1,2) s(1) ms assms(4), of local_time "Some (Naive since)"] s(1)
  show "\<exists>sorted_msgs. sorted_newest_first msgs = Inr sorted_msgs
          \<and> fst (fetch_verification_code extract_code local_time resp (Some (Naive since)) st)
              = Inr (first_code extract_code (filter (\<lambda>m. \<not> earlier local_time since m) sorted_msgs))"
    by auto
qed

text \<open>Messages of 11:00, 12:00 and 13:00 with \<open>since_time\<close> 12:00: the first is
  skipped, so its code is not found; the other two, the undated and the unreadable one
  are not skipped.\<close>

theorem since_time_filter_witness:
  "truthy (email selected)
   \<and> fst (list_emails (email selected) (inbox_of [mail_11, mail_12, mail_13]) selected)
        = Inr [mail_11, mail_12, mail_13]
   \<and> list_all is_message [mail_11, mail_12, mail_13]
   \<and> skip_message clock (Some (Naive 1200)) mail_11 = Inr True
   \<and> skip_message clock (Some (Naive 1200)) mail_12 = Inr False
   \<and> skip_message clock (Some (Naive 1200)) mail_13 = Inr False
   \<and> skip_message clock (Some (Naive 1200)) garbled = Inr False
   \<and> skip_message clock (Some (Naive 1200)) undated = Inr False
   \<and> fst (fetch_verification_code six_digits clock (inbox_of [mail_11, mail_12, mail_13])
            (Some (Naive 1200)) selected) = Inr JNull"
proof -
  let ?msgs = "[mail_11, mail_12, mail_13]"
  have h1: "truthy (email selected)" by (simp add: selected_def)
  have h2: "fst (list_emails (email selected) (inbox_of ?msgs) selected) = Inr ?msgs"
    by code_simp
  have h3: "list_all is_message ?msgs" by code_simp
  have h4: "\<forall>s. \<exists>c. six_digits (JStr s) = Inr c" by simp
  note t = since_time_filter [OF h1 h2 h3 h4, of clock 1200]
  have o: "is_object mail_11" "is_object mail_12" "is_object mail_13" "is_object garbled"
    "is_object undated"
    by code_simp+
  have "earlier clock 1200 mail_11 = True" "earlier clock 1200 mail_12 = False"
    "earlier clock 1200 mail_13 = False" "message_time clock garbled = None"
    "message_time clock undated = None"
    by code_simp+
  with t o have k: "skip_message clock (Some (Naive 1200)) mail_11 = Inr True"
    "skip_message clock (Some (Naive 1200)) mail_12 = Inr False"
    "skip_message clock (Some (Naive 1200)) mail_13 = Inr False"
    "skip_message clock (Some (Naive 1200)) garbled = Inr False"
    "skip_message clock (Some (Naive 1200)) undated = Inr False"
    by metis+
  from t obtain sorted_msgs where
    s: "sorted_newest_first ?msgs = Inr sorted_msgs" and
    r: "fst (fetch_verification_code six_digits clock (inbox_of ?msgs) (Some (Naive 1200)) selected)
         = Inr (first_code six_digits (filter (\<lambda>m. \<not> earlier clock 1200 m) sorted_msgs))"
    by blast
  have "sorted_newest_first ?msgs = Inr [mail_13, mail_12, mail_11]" by code_simp
  with s have "sorted_msgs = [mail_13, mail_12, mail_11]" by simp
  moreover have "first_code six_digits (filter (\<lambda>m. \<not> earlier clock 1200 m) [mail_13, mail_12, mail_11])
      = JNull"
    by code_simp
  ultimately have "fst (fetch_verification_code six_digits clock (inbox_of ?msgs)
       (Some (Naive 1200)) selected) = Inr JNull"
    using r by simp
  with h1 h2 h3 k show ?thesis by blast
qed

text \<open>With an aware \<open>since_time\<close> of 12:00 the comparison raises, the handler drops the
  exception, and the 11:00 message is searched and gives its code.\<close>

theorem since_time_aware_counterexample:
  "message_time clock mail_11 = Some 1100
   \<and> skip_message clock (Some (Aware 1200)) mail_11 = Inr False
   \<and> fst (fetch_verification_code six_digits clock (inbox_of [mail_11]) (Some (Aware 1200))
            selected) = Inr (JStr ''111111'')"
  by code_simp

section \<open>Facts about the polling loop\<close>

lemma request_trace:
  "\<exists>evs. snd (request target resp st) = st\<lparr>trace := trace st @ evs\<rparr>
         \<and> filter is_attempt_or_sleep evs = filter is_attempt_or_sleep [Request target]"
  by (cases resp) (auto simp: request_def log_def Let_def)

lemma list_emails_try_trace:
  "\<exists>evs. snd (list_emails_try a resp st) = st\<lparr>trace := trace st @ evs\<rparr>
         \<and> filter is_attempt_or_sleep evs = [Request (Inbox a)]"
proof -
  obtain r st1 where rq: "request (Inbox a) resp st = (r, st1)" by (metis prod.exhaust)
  with request_trace [of "Inbox a" resp st] obtain evs where
    e: "st1 = st\<lparr>trace := trace st @ evs\<rparr>" "filter is_attempt_or_sleep evs = [Request (Inbox a)]"
    by auto
  have "snd (list_emails_try a resp st) = st1 \<or> snd (list_emails_try a resp st) = log ''error'' st1"
    using rq by (auto simp: list_emails_try_def split: sum.splits prod.splits)
  then show ?thesis
  proof
    assume "snd (list_emails_try a resp st) = st1"
    with e show ?thesis by blast
  next
    assume "snd (list_emails_try a resp st) = log ''error'' st1"
    with e have "snd (list_emails_try a resp st) = st\<lparr>trace := trace st @ (evs @ [Log ''error''])\<rparr>"
      by (simp add: log_def)
    moreover have "filter is_attempt_or_sleep (evs @ [Log ''error'']) = [Request (Inbox a)]"
      using e by simp
    ultimately show ?thesis by blast
  qed
qed

lemma list_emails_trace:
  "\<exists>evs. snd (list_emails a resp st) = st\<lparr>trace := trace st @ evs\<rparr>
         \<and> filter is_attempt_or_sleep evs = [Request (Inbox a)]"
proof -
  from list_emails_try_trace [of a resp st] obtain evs where
    e: "snd (list_emails_try a resp st) = st\<lparr>trace := trace st @ evs\<rparr>"
       "filter is_attempt_or_sleep evs = [Request (Inbox a)]"
    by blast
  obtain r st1 where t: "list_emails_try a resp st = (r, st1)" by (metis prod.exhaust)
  show ?thesis
  proof (cases r)
    case (Inl err)
    with t e have "snd (list_emails a resp st) = st\<lparr>trace := trace st @ (evs @ [Log ''error''])\<rparr>"
      by (simp add: list_emails_def log_def)
    moreover have "filter is_attempt_or_sleep (evs @ [Log ''error'']) = [Request (Inbox a)]"
      using e by simp
    ultimately show ?thesis by blast
  next
    case (Inr xs)
    with t e show ?thesis by (auto simp: list_emails_def)
  qed
qed

lemma scan_trace:
  "\<exists>evs. snd (snd (scan extract_code local_time since_time msgs skipped st)) = st\<lparr>trace := trace st @ evs\<rparr>
         \<and> filter is_attempt_or_sleep evs = []"
proof (induction msgs arbitrary: skipped st)
  case Nil
  have "st = st\<lparr>trace := trace st @ []\<rparr>" by simp
  then show ?case by (metis filter.simps(1) scan.simps(1) snd_conv)
next
  case (Cons m msgs)
  let ?st1 = "log ''info'' st"
  have a: "\<And>evs. filter is_attempt_or_sleep evs = [] \<Longrightarrow>
      \<exists>evs2. (?st1)\<lparr>trace := trace ?st1 @ evs\<rparr> = st\<lparr>trace := trace st @ evs2\<rparr>
              \<and> filter is_attempt_or_sleep evs2 = []"
  proof -
    fix evs assume "filter is_attempt_or_sleep evs = []"
    then have "filter is_attempt_or_sleep (Log ''info'' # evs) = []" by simp
    moreover have "(?st1)\<lparr>trace := trace ?st1 @ evs\<rparr> = st\<lparr>trace := trace st @ (Log ''info'' # evs)\<rparr>"
      by (simp add: log_def)
    ultimately show "\<exists>evs2. (?st1)\<lparr>trace := trace ?st1 @ evs\<rparr> = st\<lparr>trace := trace st @ evs2\<rparr>
              \<and> filter is_attempt_or_sleep evs2 = []" by blast
  qed
  have b: "\<exists>evs. st = st\<lparr>trace := trace st @ evs\<rparr> \<and> filter is_attempt_or_sleep evs = []"
    by (rule exI [of _ "[]"]) simp
  have c: "\<exists>evs. ?st1 = st\<lparr>trace := trace st @ evs\<rparr> \<and> filter is_attempt_or_sleep evs = []"
    by (rule exI [of _ "[Log ''info'']"]) (simp add: log_def)
  have d: "\<exists>evs. log ''info'' ?st1 = st\<lparr>trace := trace st @ evs\<rparr> \<and> filter is_attempt_or_sleep evs = []"
    by (rule exI [of _ "[Log ''info'', Log ''info'']"]) (simp add: log_def)
  from Cons.IH [of skipped ?st1] a
  have e: "\<exists>evs. snd (snd (scan extract_code local_time since_time msgs skipped ?st1))
             = st\<lparr>trace := trace st @ evs\<rparr> \<and> filter is_attempt_or_sleep evs = []"
    by metis
  show ?case
    using b c d e Cons.IH [of "skipped + 1" st]
    by (simp split: sum.splits bool.splits)
qed

lemma scan_state_indep:
  "fst (scan extract_code local_time since_time msgs skipped st)
     = fst (scan extract_code local_time since_time msgs skipped' st')"
proof (induction msgs arbitrary: skipped st skipped' st')
  case Nil
  then show ?case by simp
next
  case (Cons m msgs)
  show ?case
    using Cons.IH [of "skipped + 1" st "skipped' + 1" st']
      Cons.IH [of skipped "log ''info'' st" skipped' "log ''info'' st'"]
    by (simp split: sum.splits bool.splits)
qed

lemma fetch_try_value:
  "fst (fetch_try extract_code local_time resp since_time st) =
     (case fst (list_emails (email st) resp st) of
        Inl e \<Rightarrow> Inl e
      | Inr emails \<Rightarrow>
          if emails = [] then Inr JNull
          else (case sorted_newest_first emails of
                  Inl e \<Rightarrow> Inl e
                | Inr sorted_emails \<Rightarrow>
                    (case fst (scan extract_code local_time since_time sorted_emails 0 st) of
                       Inl e \<Rightarrow> Inl e
                     | Inr None \<Rightarrow> Inr JNull
                     | Inr (Some code) \<Rightarrow> Inr code)))"
proof -
  obtain r st1 where l: "list_emails (email st) resp (log ''info'' st) = (r, st1)"
    by (metis prod.exhaust)
  then have v: "fst (list_emails (email st) resp st) = r"
    using list_emails_state_indep [of "email st" resp st "email st" "log ''info'' st"] by simp
  show ?thesis
  proof (cases r)
    case (Inl e)
    with l v show ?thesis by (simp add: fetch_try_def)
  next
    case (Inr emails)
    show ?thesis
    proof (cases "emails = []")
      case True
      with Inr l v show ?thesis by (simp add: fetch_try_def)
    next
      case False
      show ?thesis
      proof (cases "sorted_newest_first emails")
        case (Inl e)
        with False Inr l v show ?thesis by (simp add: fetch_try_def)
      next
        case s: (Inr sorted_emails)
        obtain q k st2 where sc:
          "scan extract_code local_time since_time sorted_emails 0 (log ''info'' st1) = (q, k, st2)"
          by (metis prod.exhaust)
        then have "fst (scan extract_code local_time since_time sorted_emails 0 st) = q"
          using scan_state_indep [of extract_code local_time since_time sorted_emails 0 st 0 "log ''info'' st1"]
          by simp
        with sc s False Inr l v show ?thesis
          by (simp add: fetch_try_def split: sum.splits option.splits)
      qed
    qed
  qed
qed

lemma fetch_value:
  "fst (fetch_verification_code extract_code local_time resp since_time st) =
     (if \<not> truthy (email st) then Inr JNull
      else (case fst (fetch_try extract_code local_time resp since_time st) of
              Inl e \<Rightarrow> Inr JNull
            | Inr code \<Rightarrow> Inr code))"
  by (simp add: fetch_verification_code_def split: prod.splits sum.splits)

lemma fetch_email_only:
  assumes "email st = email st'"
  shows "fst (fetch_verification_code extract_code local_time resp since_time st)
       = fst (fetch_verification_code extract_code local_time resp since_time st')"
proof -
  have "fst (list_emails (email st) resp st) = fst (list_emails (email st') resp st')"
    by (rule list_emails_state_indep)
  moreover have "\<And>s. fst (scan extract_code local_time since_time s 0 st)
       = fst (scan extract_code local_time since_time s 0 st')"
    by (rule scan_state_indep)
  ultimately have "fst (fetch_try extract_code local_time resp since_time st)
       = fst (fetch_try extract_code local_time resp since_time st')"
    by (simp add: fetch_try_value cong: sum.case_cong if_cong)
  with assms show ?thesis by (simp add: fetch_value)
qed

lemma fetch_never_raises:
  "\<exists>v. fst (fetch_verification_code extract_code local_time resp since_time st) = Inr v"
  by (simp add: fetch_value split: sum.splits)

lemma fetch_try_trace:
  "\<exists>evs. snd (fetch_try extract_code local_time resp since_time st) = st\<lparr>trace := trace st @ evs\<rparr>
         \<and> filter is_attempt_or_sleep evs = [Request (Inbox (email st))]"
proof -
  let ?st0 = "log ''info'' st"
  obtain r st1 where l: "list_emails (email st) resp ?st0 = (r, st1)" by (metis prod.exhaust)
  from list_emails_trace [of "email st" resp ?st0] l obtain evs1 where
    e1: "st1 = ?st0\<lparr>trace := trace ?st0 @ evs1\<rparr>"
        "filter is_attempt_or_sleep evs1 = [Request (Inbox (email st))]"
    by auto
  have base: "st1 = st\<lparr>trace := trace st @ (Log ''info'' # evs1)\<rparr>"
    using e1(1) by (simp add: log_def)
  have ext: "\<exists>evs. s = st\<lparr>trace := trace st @ evs\<rparr>
         \<and> filter is_attempt_or_sleep evs = [Request (Inbox (email st))]"
    if "s = st1\<lparr>trace := trace st1 @ more\<rparr>" "filter is_attempt_or_sleep more = []" for s more
  proof -
    have "s = st\<lparr>trace := trace st @ (Log ''info'' # evs1 @ more)\<rparr>"
      using that(1) base by simp
    moreover have "filter is_attempt_or_sleep (Log ''info'' # evs1 @ more) = [Request (Inbox (email st))]"
      using e1(2) that(2) by simp
    ultimately show ?thesis by blast
  qed
  have r1: "\<exists>evs. st1 = st\<lparr>trace := trace st @ evs\<rparr>
         \<and> filter is_attempt_or_sleep evs = [Request (Inbox (email st))]"
    by (rule ext [of st1 "[]"]) simp_all
  have r2: "\<exists>evs. log ''info'' st1 = st\<lparr>trace := trace st @ evs\<rparr>
         \<and> filter is_attempt_or_sleep evs = [Request (Inbox (email st))]"
    by (rule ext [of _ "[Log ''info'']"]) (simp_all add: log_def)
  show ?thesis
  proof (cases r)
    case (Inl e)
    with l r1 show ?thesis by (simp add: fetch_try_def)
  next
    case (Inr emails)
    show ?thesis
    proof (cases "emails = []")
      case True
      with Inr l r2 show ?thesis by (simp add: fetch_try_def)
    next
      case False
      show ?thesis
      proof (cases "sorted_newest_first emails")
        case (Inl e)
        with False Inr l r1 show ?thesis by (simp add: fetch_try_def)
      next
        case s: (Inr sorted_emails)
        let ?st2 = "log ''info'' st1"
        obtain q k st3 where sc:
          "scan extract_code local_time since_time sorted_emails 0 ?st2 = (q, k, st3)"
          by (metis prod.exhaust)
        from scan_trace [of extract_code local_time since_time sorted_emails 0 ?st2] sc
        obtain evs2 where e2: "st3 = ?st2\<lparr>trace := trace ?st2 @ evs2\<rparr>"
          "filter is_attempt_or_sleep evs2 = []"
          by auto
        have a: "\<exists>evs. st3 = st\<lparr>trace := trace st @ evs\<rparr>
         \<and> filter is_attempt_or_sleep evs = [Request (Inbox (email st))]"
          by (rule ext [of _ "Log ''info'' # evs2"]) (simp_all add: e2 log_def)
        have b: "\<exists>evs. log ''warning'' st3 = st\<lparr>trace := trace st @ evs\<rparr>
         \<and> filter is_attempt_or_sleep evs = [Request (Inbox (email st))]"
          by (rule ext [of _ "Log ''info'' # evs2 @ [Log ''warning'']"]) (simp_all add: e2 log_def)
        have c: "\<exists>evs. log ''warning'' (log ''info'' st3) = st\<lparr>trace := trace st @ evs\<rparr>
         \<and> filter is_attempt_or_sleep evs = [Request (Inbox (email st))]"
          by (rule ext [of _ "Log ''info'' # evs2 @ [Log ''info'', Log ''warning'']"])
             (simp_all add: e2 log_def)
        from sc s False Inr l a b c show ?thesis
          by (simp add: fetch_try_def split: sum.splits option.splits)
      qed
    qed
  qed
qed

lemma fetch_trace:
  assumes "truthy (email st)"
  shows "\<exists>evs. snd (fetch_verification_code extract_code local_time resp since_time st)
             = st\<lparr>trace := trace st @ evs\<rparr>
         \<and> filter is_attempt_or_sleep evs = [Request (Inbox (email st))]"
proof -
  from fetch_try_trace [of extract_code local_time resp since_time st] obtain evs where
    e: "snd (fetch_try extract_code local_time resp since_time st) = st\<lparr>trace := trace st @ evs\<rparr>"
       "filter is_attempt_or_sleep evs = [Request (Inbox (email st))]"
    by blast
  obtain r st1 where t: "fetch_try extract_code local_time resp since_time st = (r, st1)"
    by (metis prod.exhaust)
  show ?thesis
  proof (cases r)
    case (Inl err)
    with t e assms have "snd (fetch_verification_code extract_code local_time resp since_time st)
        = st\<lparr>trace := trace st @ (evs @ [Log ''error''])\<rparr>"
      by (simp add: fetch_verification_code_def log_def)
    moreover have "filter is_attempt_or_sleep (evs @ [Log ''error'']) = [Request (Inbox (email st))]"
      using e by simp
    ultimately show ?thesis by blast
  next
    case (Inr code)
    with t e assms show ?thesis by (auto simp: fetch_verification_code_def)
  qed
qed

lemma digits_mono: "m \<le> n \<Longrightarrow> digits m \<le> digits n"
proof (induction n arbitrary: m rule: digits.induct)
  case (1 n)
  show ?case
  proof (cases "n < 10")
    case True
    with "1.prems" have "m < 10" by simp
    with True show ?thesis by (simp add: digits.simps [of m] digits.simps [of n])
  next
    case False
    show ?thesis
    proof (cases "m < 10")
      case True
      with False show ?thesis by (simp add: digits.simps [of m] digits.simps [of n])
    next
      case m: False
      from "1.prems" have "m div 10 \<le> n div 10" by (rule div_le_mono)
      from "1.IH" [OF False this] False m show ?thesis
        by (simp add: digits.simps [of m] digits.simps [of n])
    qed
  qed
qed

lemma digits_one: "digits (Suc 0) = 1"
  by (simp add: digits.simps [of "Suc 0"])


lemma str_int_can_format: "str_int n = (if can_format n then Inr () else Inl ValueError)"
  by (auto simp: str_int_def can_format_def)

lemma can_format_mono: "\<bar>a\<bar> \<le> \<bar>b\<bar> \<Longrightarrow> can_format b \<Longrightarrow> can_format a"
  unfolding can_format_def
  using digits_mono [of "nat \<bar>a\<bar>" "nat \<bar>b\<bar>"] by linarith

lemma can_format_one: "can_format 1"
  by (simp add: can_format_def digits_one max_str_digits_def)

lemma abs_div_le_abs_pos:
  fixes a b :: int
  assumes "0 < b"
  shows "\<bar>a div b\<bar> \<le> \<bar>a\<bar>"
proof (cases "0 \<le> a")
  case True
  then have "0 \<le> a div b" using assms by (simp add: pos_imp_zdiv_nonneg_iff)
  moreover have "a div b \<le> a div 1" using True assms by (intro zdiv_mono2) simp_all
  ultimately show ?thesis using True by simp
next
  case False
  then have neg: "a < 0" by simp
  then have "a div b \<le> 0" using assms by (intro div_nonpos_pos_le0) simp_all
  moreover have "a div 1 \<le> a div b" using neg assms by (intro zdiv_mono2_neg) simp_all
  ultimately show ?thesis using neg by simp
qed

lemma abs_div_le_abs: "\<bar>a div b\<bar> \<le> \<bar>a\<bar>" for a b :: int
proof -
  consider "b = 0" | "0 < b" | "b < 0" by linarith
  then show ?thesis
  proof cases
    case 1
    then show ?thesis by simp
  next
    case 2
    then show ?thesis by (rule abs_div_le_abs_pos)
  next
    case 3
    then have "0 < - b" by simp
    from abs_div_le_abs_pos [OF this, of "- a"] show ?thesis by simp
  qed
qed

lemma can_format_max_retries:
  assumes "can_format timeout"
  shows "can_format (max_retries timeout interval)"
proof (cases "1 \<le> timeout div interval")
  case True
  then have "max_retries timeout interval = timeout div interval"
    by (simp add: max_retries_def)
  with abs_div_le_abs [of timeout interval] assms show ?thesis
    by (auto intro: can_format_mono)
next
  case False
  then have "max_retries timeout interval = 1" by (simp add: max_retries_def)
  then show ?thesis by (simp add: can_format_one)
qed


lemma sleep_cases:
  "sleep platform_limit secs st =
     (if sleep_accepts platform_limit secs then (Inr (), st\<lparr>trace := trace st @ [Sleep secs]\<rparr>)
      else (Inl (if secs < 0 then ValueError
                 else if max_sleep < secs then OverflowError else OSError), st))"
  by (auto simp: sleep_def sleep_accepts_def)

lemma attempts_with_sleeps_step:
  "0 < k \<Longrightarrow> Request (Inbox a) # Sleep secs # attempts_with_sleeps a secs k
              = attempts_with_sleeps a secs (Suc k)"
  by (cases k) simp_all

lemma poll_from_run:
  assumes em: "truthy (email s0)" and iv: "n = 1 \<or> sleep_accepts platform_limit interval"
  shows "email st = email s0 \<Longrightarrow> 1 \<le> i \<Longrightarrow> i \<le> n \<Longrightarrow>
     \<exists>k evs r.
       poll_from platform_limit extract_code local_time inbox interval since_time n i st
         = (r, st\<lparr>trace := trace st @ evs\<rparr>)
       \<and> i \<le> k \<and> k \<le> n
       \<and> filter is_attempt_or_sleep evs = attempts_with_sleeps (email s0) interval (Suc k - i)
       \<and> (\<forall>j. i \<le> j \<and> j < k \<longrightarrow> \<not> truthy (attempt extract_code local_time inbox since_time s0 j))
       \<and> (if truthy (attempt extract_code local_time inbox since_time s0 k)
           then r = Inr (attempt extract_code local_time inbox since_time s0 k)
           else k = n \<and> r = Inr JNull)"
proof (induction "n - i" arbitrary: i st)
  case 0
  then have "i = n" by simp
  let ?st0 = "log ''info'' st"
  have e0: "email ?st0 = email s0" using "0.prems"(1) by simp
  obtain code where v: "fst (fetch_verification_code extract_code local_time (inbox i) since_time ?st0) = Inr code"
    using fetch_never_raises by blast
  have code: "code = attempt extract_code local_time inbox since_time s0 i"
    using v fetch_email_only [OF e0, of extract_code local_time "inbox i" since_time]
    by (simp add: attempt_def)
  from fetch_trace [of ?st0 extract_code local_time "inbox i" since_time] em e0 obtain evs1 where
    t1: "snd (fetch_verification_code extract_code local_time (inbox i) since_time ?st0)
           = ?st0\<lparr>trace := trace ?st0 @ evs1\<rparr>"
        "filter is_attempt_or_sleep evs1 = [Request (Inbox (email s0))]"
    by auto
  let ?st1 = "?st0\<lparr>trace := trace ?st0 @ evs1\<rparr>"
  have f: "fetch_verification_code extract_code local_time (inbox i) since_time ?st0 = (Inr code, ?st1)"
    using v t1(1) by (metis prod.collapse)
  show ?case
  proof (cases "truthy code")
    case True
    have "poll_from platform_limit extract_code local_time inbox interval since_time n i st
        = (Inr code, st\<lparr>trace := trace st @ (Log ''info'' # evs1 @ [Log ''info''])\<rparr>)"
      using f True "0.prems" by (subst poll_from.simps) (simp add: log_def)
    moreover have "filter is_attempt_or_sleep (Log ''info'' # evs1 @ [Log ''info''])
        = attempts_with_sleeps (email s0) interval (Suc i - i)"
      using t1(2) by simp
    ultimately show ?thesis using True code "0.prems" by (intro exI [of _ i]) auto
  next
    case False
    have "poll_from platform_limit extract_code local_time inbox interval since_time n (i + 1) ?st1
        = (Inr JNull, log ''error'' ?st1)"
      using \<open>i = n\<close> by (subst poll_from.simps) simp
    then have "poll_from platform_limit extract_code local_time inbox interval since_time n i st
        = (Inr JNull, st\<lparr>trace := trace st @ (Log ''info'' # evs1 @ [Log ''error''])\<rparr>)"
      using f False \<open>i = n\<close> by (subst poll_from.simps) (simp add: log_def)
    moreover have "filter is_attempt_or_sleep (Log ''info'' # evs1 @ [Log ''error''])
        = attempts_with_sleeps (email s0) interval (Suc i - i)"
      using t1(2) by simp
    ultimately show ?thesis using False code \<open>i = n\<close> by (intro exI [of _ i]) auto
  qed
next
  case (Suc d)
  then have lt: "i < n" by simp
  let ?st0 = "log ''info'' st"
  have e0: "email ?st0 = email s0" using Suc.prems(1) by simp
  obtain code where v: "fst (fetch_verification_code extract_code local_time (inbox i) since_time ?st0) = Inr code"
    using fetch_never_raises by blast
  have code: "code = attempt extract_code local_time inbox since_time s0 i"
    using v fetch_email_only [OF e0, of extract_code local_time "inbox i" since_time]
    by (simp add: attempt_def)
  from fetch_trace [of ?st0 extract_code local_time "inbox i" since_time] em e0 obtain evs1 where
    t1: "snd (fetch_verification_code extract_code local_time (inbox i) since_time ?st0)
           = ?st0\<lparr>trace := trace ?st0 @ evs1\<rparr>"
        "filter is_attempt_or_sleep evs1 = [Request (Inbox (email s0))]"
    by auto
  let ?st1 = "?st0\<lparr>trace := trace ?st0 @ evs1\<rparr>"
  have f: "fetch_verification_code extract_code local_time (inbox i) since_time ?st0 = (Inr code, ?st1)"
    using v t1(1) by (metis prod.collapse)
  show ?case
  proof (cases "truthy code")
    case True
    have "poll_from platform_limit extract_code local_time inbox interval since_time n i st
        = (Inr code, st\<lparr>trace := trace st @ (Log ''info'' # evs1 @ [Log ''info''])\<rparr>)"
      using f True Suc.prems by (subst poll_from.simps) (simp add: log_def)
    moreover have "filter is_attempt_or_sleep (Log ''info'' # evs1 @ [Log ''info''])
        = attempts_with_sleeps (email s0) interval (Suc i - i)"
      using t1(2) by simp
    ultimately show ?thesis using True code Suc.prems by (intro exI [of _ i]) auto
  next
    case False
    let ?st2 = "?st1\<lparr>trace := trace ?st1 @ [Sleep interval]\<rparr>"
    have "n \<noteq> 1" using lt Suc.prems(2) by simp
    with iv have "sleep_accepts platform_limit interval" by simp
    then have sl: "sleep platform_limit interval ?st1 = (Inr (), ?st2)"
      by (simp add: sleep_cases)
    have e2: "email ?st2 = email s0" using Suc.prems(1) by simp
    have d: "d = n - (i + 1)" using Suc(2) by simp
    from Suc.hyps(1) [OF d e2] lt obtain k evs r where
      rec: "poll_from platform_limit extract_code local_time inbox interval since_time n (i + 1) ?st2
              = (r, ?st2\<lparr>trace := trace ?st2 @ evs\<rparr>)"
      and k: "i + 1 \<le> k" "k \<le> n"
      and tr: "filter is_attempt_or_sleep evs = attempts_with_sleeps (email s0) interval (Suc k - (i + 1))"
      and before: "\<forall>j. i + 1 \<le> j \<and> j < k \<longrightarrow> \<not> truthy (attempt extract_code local_time inbox since_time s0 j)"
      and res: "if truthy (attempt extract_code local_time inbox since_time s0 k)
           then r = Inr (attempt extract_code local_time inbox since_time s0 k)
           else k = n \<and> r = Inr JNull"
      by auto
    let ?evs = "Log ''info'' # evs1 @ Sleep interval # evs"
    have "poll_from platform_limit extract_code local_time inbox interval since_time n i st
        = (r, st\<lparr>trace := trace st @ ?evs\<rparr>)"
      using f False lt sl rec by (subst poll_from.simps) (simp add: log_def)
    moreover have "filter is_attempt_or_sleep ?evs
        = attempts_with_sleeps (email s0) interval (Suc k - i)"
    proof -
      have "filter is_attempt_or_sleep ?evs
          = Request (Inbox (email s0)) # Sleep interval
              # attempts_with_sleeps (email s0) interval (k - i)"
        using t1(2) tr by simp
      also have "\<dots> = attempts_with_sleeps (email s0) interval (Suc (k - i))"
        using k by (intro attempts_with_sleeps_step) simp
      also have "Suc (k - i) = Suc k - i" using k by simp
      finally show ?thesis .
    qed
    moreover have "\<forall>j. i \<le> j \<and> j < k \<longrightarrow> \<not> truthy (attempt extract_code local_time inbox since_time s0 j)"
    proof (intro allI impI)
      fix j assume j: "i \<le> j \<and> j < k"
      show "\<not> truthy (attempt extract_code local_time inbox since_time s0 j)"
      proof (cases "j = i")
        case True
        with False code show ?thesis by simp
      next
        case False
        with j before show ?thesis by simp
      qed
    qed
    ultimately show ?thesis using k res by (intro exI [of _ k]) auto
  qed
qed

lemma attempts_with_sleeps_nonempty: "attempts_with_sleeps a secs (Suc k) \<noteq> []"
  by (cases k) simp_all

lemma attempts_with_sleeps_count:
  "length (filter (\<lambda>e. e = Request (Inbox a)) (attempts_with_sleeps a secs k)) = k
   \<and> length (filter (\<lambda>e. e = Sleep secs) (attempts_with_sleeps a secs k)) = k - 1
   \<and> (0 < k \<longrightarrow> last (attempts_with_sleeps a secs k) = Request (Inbox a))"
  by (induction a secs k rule: attempts_with_sleeps.induct)
     (simp_all add: attempts_with_sleeps_nonempty)

lemma max_retries_pos: "1 \<le> max_retries timeout interval"
  by (simp add: max_retries_def)

lemma poll_from_first:
  assumes em: "truthy (email st)" and i: "i \<le> n"
  shows "\<exists>evs. filter is_attempt_or_sleep evs = [Request (Inbox (email st))]
     \<and> (truthy (attempt extract_code local_time inbox since_time st i) \<longrightarrow>
          (\<exists>more. poll_from platform_limit extract_code local_time inbox interval since_time n i st
             = (Inr (attempt extract_code local_time inbox since_time st i),
                st\<lparr>trace := trace st @ evs @ more\<rparr>)
            \<and> filter is_attempt_or_sleep more = []))
     \<and> (\<not> truthy (attempt extract_code local_time inbox since_time st i) \<and> i < n
          \<and> \<not> sleep_accepts platform_limit interval \<longrightarrow>
          poll_from platform_limit extract_code local_time inbox interval since_time n i st
            = (Inl (if interval < 0 then ValueError
                    else if max_sleep < interval then OverflowError else OSError),
               st\<lparr>trace := trace st @ evs\<rparr>))"
proof -
  let ?st0 = "log ''info'' st"
  have e0: "email ?st0 = email st" by simp
  obtain code where v:
    "fst (fetch_verification_code extract_code local_time (inbox i) since_time ?st0) = Inr code"
    using fetch_never_raises by blast
  have code: "code = attempt extract_code local_time inbox since_time st i"
    using v fetch_email_only [OF e0, of extract_code local_time "inbox i" since_time]
    by (simp add: attempt_def)
  from fetch_trace [of ?st0 extract_code local_time "inbox i" since_time] em obtain evs1 where
    t1: "snd (fetch_verification_code extract_code local_time (inbox i) since_time ?st0)
           = ?st0\<lparr>trace := trace ?st0 @ evs1\<rparr>"
        "filter is_attempt_or_sleep evs1 = [Request (Inbox (email st))]"
    by auto
  let ?st1 = "?st0\<lparr>trace := trace ?st0 @ evs1\<rparr>"
  have f: "fetch_verification_code extract_code local_time (inbox i) since_time ?st0 = (Inr code, ?st1)"
    using v t1(1) by (metis prod.collapse)
  let ?evs = "Log ''info'' # evs1"
  have a: "filter is_attempt_or_sleep ?evs = [Request (Inbox (email st))]"
    using t1(2) by simp
  have b: "poll_from platform_limit extract_code local_time inbox interval since_time n i st
             = (Inr code, st\<lparr>trace := trace st @ ?evs @ [Log ''info'']\<rparr>)"
    if "truthy code"
    using f that i by (subst poll_from.simps) (simp add: log_def)
  have c: "poll_from platform_limit extract_code local_time inbox interval since_time n i st
            = (Inl (if interval < 0 then ValueError
                    else if max_sleep < interval then OverflowError else OSError),
               st\<lparr>trace := trace st @ ?evs\<rparr>)"
    if "\<not> truthy code" "i < n" "\<not> sleep_accepts platform_limit interval"
    using f that by (subst poll_from.simps) (simp add: log_def sleep_cases)
  have "filter is_attempt_or_sleep [Log ''info''] = []" by simp
  with a b c code show ?thesis by (intro exI [of _ ?evs]) blast
qed

lemma poll_for_code_ready:
  assumes "truthy (email st)" "interval \<noteq> 0" "can_format timeout" "can_format interval"
  shows "poll_for_code platform_limit extract_code local_time inbox timeout interval since_time st
     = poll_from platform_limit extract_code local_time inbox interval since_time
         (nat (max_retries timeout interval)) 1 (log ''info'' st)"
  using assms can_format_max_retries [OF assms(3), of interval]
  by (simp add: poll_for_code_def str_int_can_format)

lemma attempt_log:
  "attempt extract_code local_time inbox since_time (log l st) i
     = attempt extract_code local_time inbox since_time st i"
proof -
  have "email (log l st) = email st" by simp
  from fetch_email_only [OF this] show ?thesis by (simp add: attempt_def)
qed

text \<open>
  Claim C6, for an interval that is not 0, a timeout and an interval that the log line can
  show, and an interval that \<^verbatim>\<open>time.sleep\<close> accepts (or a single attempt, when nothing
  sleeps). \<open>max_retries\<close> is \<open>max 1 (timeout div interval)\<close>, which is 2 for timeout 10 and
  interval 5. Without an email the method returns \<open>None\<close> after one error message. With
  an email there are \<open>k\<close> attempts, \<open>1 \<le> k \<le> max_retries\<close>: the inbox requests and the
  sleeps of the trace are \<open>k\<close> requests with a sleep of \<open>interval\<close> between each two and none
  after the last; the attempts before the \<open>k\<close>-th found nothing; and either the \<open>k\<close>-th
  found a code, which is returned, or \<open>k = max_retries\<close> and the result is \<open>None\<close>.
\<close>

theorem poll_for_code_attempts:
  assumes "interval \<noteq> 0" and "can_format timeout" and "can_format interval"
    and "max_retries timeout interval = 1 \<or> sleep_accepts platform_limit interval"
  shows "max_retries timeout interval = max 1 (timeout div interval)
     \<and> max_retries 10 5 = 2
     \<and> (\<not> truthy (email st) \<longrightarrow>
           poll_for_code platform_limit extract_code local_time inbox timeout interval since_time st
             = (Inr JNull, log ''error'' st))
     \<and> (truthy (email st) \<longrightarrow>
          (\<exists>k r st'.
             poll_for_code platform_limit extract_code local_time inbox timeout interval since_time st
               = (r, st')
           \<and> 1 \<le> k \<and> int k \<le> max_retries timeout interval
           \<and> attempts_and_sleeps st st' = attempts_with_sleeps (email st) interval k
           \<and> length (filter (\<lambda>e. e = Request (Inbox (email st))) (attempts_and_sleeps st st')) = k
           \<and> length (filter (\<lambda>e. e = Sleep interval) (attempts_and_sleeps st st')) = k - 1
           \<and> last (attempts_and_sleeps st st') = Request (Inbox (email st))
           \<and> (\<forall>j. 1 \<le> j \<and> j < k \<longrightarrow>
                 \<not> truthy (attempt extract_code local_time inbox since_time st j))
           \<and> (if truthy (attempt extract_code local_time inbox since_time st k)
               then r = Inr (attempt extract_code local_time inbox since_time st k)
               else int k = max_retries timeout interval \<and> r = Inr JNull)))"
proof (intro conjI impI)
  show "max_retries timeout interval = max 1 (timeout div interval)"
    by (simp add: max_retries_def)
  show "max_retries 10 5 = 2" by (simp add: max_retries_def)
  show "poll_for_code platform_limit extract_code local_time inbox timeout interval since_time st
             = (Inr JNull, log ''error'' st)" if "\<not> truthy (email st)"
    using that by (simp add: poll_for_code_def)
  assume em: "truthy (email st)"
  let ?n = "nat (max_retries timeout interval)"
  let ?st0 = "log ''info'' st"
  have n: "1 \<le> ?n" using max_retries_pos [of timeout interval] by simp
  have iv: "?n = 1 \<or> sleep_accepts platform_limit interval"
    using assms(4) by auto
  have e0: "email ?st0 = email st" by simp
  have one: "(1::nat) \<le> 1" by simp
  from poll_from_run [where ?s0.0 = st and st = "?st0" and i = 1 and n = "?n"
      and ?extract_code = extract_code and local_time = local_time and inbox = inbox
      and since_time = since_time and interval = interval and platform_limit = platform_limit,
      OF em iv e0 one n]
  obtain k evs r where
    run: "poll_from platform_limit extract_code local_time inbox interval since_time ?n 1 ?st0
            = (r, ?st0\<lparr>trace := trace ?st0 @ evs\<rparr>)"
    and k: "1 \<le> k" "k \<le> ?n"
    and tr: "filter is_attempt_or_sleep evs = attempts_with_sleeps (email st) interval (Suc k - 1)"
    and before: "\<forall>j. 1 \<le> j \<and> j < k \<longrightarrow> \<not> truthy (attempt extract_code local_time inbox since_time st j)"
    and res: "if truthy (attempt extract_code local_time inbox since_time st k)
           then r = Inr (attempt extract_code local_time inbox since_time st k)
           else k = ?n \<and> r = Inr JNull"
    by auto
  let ?st' = "?st0\<lparr>trace := trace ?st0 @ evs\<rparr>"
  have p: "poll_for_code platform_limit extract_code local_time inbox timeout interval since_time st
             = (r, ?st')"
    using poll_for_code_ready [OF em assms(1,2,3)] run by simp
  have a: "attempts_and_sleeps st ?st' = attempts_with_sleeps (email st) interval k"
    using tr by (simp add: attempts_and_sleeps_def log_def)
  have kn: "int k \<le> max_retries timeout interval" using k(2) n by linarith
  have last: "(if truthy (attempt extract_code local_time inbox since_time st k)
             then r = Inr (attempt extract_code local_time inbox since_time st k)
             else int k = max_retries timeout interval \<and> r = Inr JNull)"
    using res n by (auto split: if_splits)
  from attempts_with_sleeps_count [of "email st" interval k] k(1)
  have c: "length (filter (\<lambda>e. e = Request (Inbox (email st))) (attempts_and_sleeps st ?st')) = k"
     "length (filter (\<lambda>e. e = Sleep interval) (attempts_and_sleeps st ?st')) = k - 1"
     "last (attempts_and_sleeps st ?st') = Request (Inbox (email st))"
    unfolding a by simp_all
  show "\<exists>k r st'.
             poll_for_code platform_limit extract_code local_time inbox timeout interval since_time st
               = (r, st')
           \<and> 1 \<le> k \<and> int k \<le> max_retries timeout interval
           \<and> attempts_and_sleeps st st' = attempts_with_sleeps (email st) interval k
           \<and> length (filter (\<lambda>e. e = Request (Inbox (email st))) (attempts_and_sleeps st st')) = k
           \<and> length (filter (\<lambda>e. e = Sleep interval) (attempts_and_sleeps st st')) = k - 1
           \<and> last (attempts_and_sleeps st st') = Request (Inbox (email st))
           \<and> (\<forall>j. 1 \<le> j \<and> j < k \<longrightarrow>
                 \<not> truthy (attempt extract_code local_time inbox since_time st j))
           \<and> (if truthy (attempt extract_code local_time inbox since_time st k)
               then r = Inr (attempt extract_code local_time inbox since_time st k)
               else int k = max_retries timeout interval \<and> r = Inr JNull)"
    using p k(1) kn a c before last by blast
qed

text \<open>Timeout 10 and interval 5 on an inbox without a code: two attempts, one sleep,
  \<open>None\<close>. Timeout 120 and interval 4 on an inbox where the code arrives before the second
  attempt: two attempts of thirty, one sleep, the code. Timeout 10 and interval \<open>-5\<close>: one
  attempt, no sleep, \<open>None\<close>. No email: \<open>None\<close> and an error message.\<close>

theorem poll_for_code_attempts_witness:
  "(5::int) \<noteq> 0 \<and> can_format 10 \<and> can_format 5 \<and> sleep_accepts some_limit 5
   \<and> truthy (email selected)
   \<and> max_retries 10 5 = 2
   \<and> fst (poll_for_code some_limit six_digits clock quiet_inbox 10 5 None selected) = Inr JNull
   \<and> attempts_and_sleeps selected
        (snd (poll_for_code some_limit six_digits clock quiet_inbox 10 5 None selected))
        = [Request (Inbox (JStr ''alice@example.org'')), Sleep 5,
           Request (Inbox (JStr ''alice@example.org''))]
   \<and> fst (poll_for_code some_limit six_digits clock late_inbox 120 4 None selected)
        = Inr (JStr ''111111'')
   \<and> attempts_and_sleeps selected
        (snd (poll_for_code some_limit six_digits clock late_inbox 120 4 None selected))
        = [Request (Inbox (JStr ''alice@example.org'')), Sleep 4,
           Request (Inbox (JStr ''alice@example.org''))]
   \<and> max_retries 10 (- 5) = 1
   \<and> fst (poll_for_code some_limit six_digits clock quiet_inbox 10 (- 5) None selected)
        = Inr JNull
   \<and> attempts_and_sleeps selected
        (snd (poll_for_code some_limit six_digits clock quiet_inbox 10 (- 5) None selected))
        = [Request (Inbox (JStr ''alice@example.org''))]
   \<and> \<not> truthy (email fresh)
   \<and> poll_for_code some_limit six_digits clock quiet_inbox 10 5 None fresh
        = (Inr JNull, log ''error'' fresh)"
proof -
  have h1: "truthy (email selected)" by (simp add: selected_def)
  have n5: "(5::int) \<noteq> 0" by simp
  have n4: "(4::int) \<noteq> 0" by simp
  have nm5: "(- 5::int) \<noteq> 0" by simp
  have c10: "can_format 10" by (simp add: can_format_def digits.simps max_str_digits_def)
  have c5: "can_format 5" by (simp add: can_format_def digits.simps max_str_digits_def)
  have c4: "can_format 4" by (simp add: can_format_def digits.simps max_str_digits_def)
  have cm5: "can_format (- 5)" by (simp add: can_format_def digits.simps max_str_digits_def)
  have c120: "can_format 120" by (simp add: can_format_def digits.simps max_str_digits_def)
  have s5: "sleep_accepts some_limit 5"
    by (simp add: sleep_accepts_def max_sleep_def some_limit_def)
  have s4: "sleep_accepts some_limit 4"
    by (simp add: sleep_accepts_def max_sleep_def some_limit_def)
  have em: "email selected = JStr ''alice@example.org''" by (simp add: selected_def fresh_def)
  have m: "max_retries 10 5 = 2" by (simp add: max_retries_def)
  have m1: "max_retries 10 (- 5) = 1" by (simp add: max_retries_def)
  have q: "fst (fetch_verification_code six_digits clock (inbox_of [mail_12]) None selected)
             = Inr JNull"
    by code_simp
  have quiet: "attempt six_digits clock quiet_inbox None selected j = JNull" for j
    by (simp add: attempt_def quiet_inbox_def q)
  from poll_for_code_attempts [OF n5 c10 c5 disjI2 [OF s5],
      where ?extract_code = six_digits and local_time = clock and inbox = quiet_inbox
        and since_time = None and st = selected, THEN conjunct2, THEN conjunct2,
      THEN conjunct2, rule_format, OF h1]
  obtain k r st' where
    p: "poll_for_code some_limit six_digits clock quiet_inbox 10 5 None selected = (r, st')" and
    k: "1 \<le> k" and
    a: "attempts_and_sleeps selected st' = attempts_with_sleeps (email selected) 5 k" and
    e: "if truthy (attempt six_digits clock quiet_inbox None selected k)
        then r = Inr (attempt six_digits clock quiet_inbox None selected k)
        else int k = max_retries 10 5 \<and> r = Inr JNull"
    by blast
  from e quiet m have "k = 2" "r = Inr JNull" by simp_all
  with p a em have first:
    "fst (poll_for_code some_limit six_digits clock quiet_inbox 10 5 None selected) = Inr JNull"
    "attempts_and_sleeps selected
        (snd (poll_for_code some_limit six_digits clock quiet_inbox 10 5 None selected))
        = [Request (Inbox (JStr ''alice@example.org'')), Sleep 5,
           Request (Inbox (JStr ''alice@example.org''))]"
    by (simp_all add: numeral_2_eq_2)
  have l1: "fst (fetch_verification_code six_digits clock (inbox_of []) None selected) = Inr JNull"
    by code_simp
  have l2: "fst (fetch_verification_code six_digits clock (inbox_of [mail_11]) None selected)
      = Inr (JStr ''111111'')"
    by code_simp
  have late: "attempt six_digits clock late_inbox None selected j
      = (if j < 2 then JNull else JStr ''111111'')" for j
    by (simp add: attempt_def late_inbox_def l1 l2)
  from poll_for_code_attempts [OF n4 c120 c4 disjI2 [OF s4],
      where ?extract_code = six_digits and local_time = clock and inbox = late_inbox
        and since_time = None and st = selected, THEN conjunct2, THEN conjunct2,
      THEN conjunct2, rule_format, OF h1]
  obtain k2 r2 st2 where
    p2: "poll_for_code some_limit six_digits clock late_inbox 120 4 None selected = (r2, st2)" and
    k2: "1 \<le> k2" and
    a2: "attempts_and_sleeps selected st2 = attempts_with_sleeps (email selected) 4 k2" and
    b2: "\<forall>j. 1 \<le> j \<and> j < k2 \<longrightarrow> \<not> truthy (attempt six_digits clock late_inbox None selected j)" and
    e2: "if truthy (attempt six_digits clock late_inbox None selected k2)
        then r2 = Inr (attempt six_digits clock late_inbox None selected k2)
        else int k2 = max_retries 120 4 \<and> r2 = Inr JNull"
    by blast
  have "max_retries 120 4 = 30" by (simp add: max_retries_def)
  with e2 late have ge: "2 \<le> k2" by (auto split: if_splits)
  have "\<not> 2 < k2"
  proof
    assume "2 < k2"
    with b2 have "\<not> truthy (attempt six_digits clock late_inbox None selected 2)" by simp
    with late show False by simp
  qed
  with ge have "k2 = 2" by simp
  with e2 late have "r2 = Inr (JStr ''111111'')" by simp
  with p2 a2 em \<open>k2 = 2\<close> have second:
    "fst (poll_for_code some_limit six_digits clock late_inbox 120 4 None selected)
       = Inr (JStr ''111111'')"
    "attempts_and_sleeps selected
        (snd (poll_for_code some_limit six_digits clock late_inbox 120 4 None selected))
        = [Request (Inbox (JStr ''alice@example.org'')), Sleep 4,
           Request (Inbox (JStr ''alice@example.org''))]"
    by (simp_all add: numeral_2_eq_2)
  from poll_for_code_attempts [OF nm5 c10 cm5 disjI1 [OF m1],
      where platform_limit = some_limit and ?extract_code = six_digits and local_time = clock
        and inbox = quiet_inbox and since_time = None and st = selected, THEN conjunct2, THEN conjunct2,
      THEN conjunct2, rule_format, OF h1]
  obtain k3 r3 st3 where
    p3: "poll_for_code some_limit six_digits clock quiet_inbox 10 (- 5) None selected = (r3, st3)"
    and k3: "1 \<le> k3" "int k3 \<le> max_retries 10 (- 5)" and
    a3: "attempts_and_sleeps selected st3 = attempts_with_sleeps (email selected) (- 5) k3" and
    e3: "if truthy (attempt six_digits clock quiet_inbox None selected k3)
        then r3 = Inr (attempt six_digits clock quiet_inbox None selected k3)
        else int k3 = max_retries 10 (- 5) \<and> r3 = Inr JNull"
    by blast
  from k3 m1 have "k3 = 1" by simp
  with e3 quiet have "r3 = Inr JNull" by simp
  with p3 a3 em \<open>k3 = 1\<close> have third:
    "fst (poll_for_code some_limit six_digits clock quiet_inbox 10 (- 5) None selected)
       = Inr JNull"
    "attempts_and_sleeps selected
        (snd (poll_for_code some_limit six_digits clock quiet_inbox 10 (- 5) None selected))
        = [Request (Inbox (JStr ''alice@example.org''))]"
    by simp_all
  have f: "\<not> truthy (email fresh)" by (simp add: fresh_def)
  from poll_for_code_attempts [OF n5 c10 c5 disjI2 [OF s5],
      where ?extract_code = six_digits and local_time = clock and inbox = quiet_inbox
        and since_time = None and st = fresh, THEN conjunct2, THEN conjunct2,
      THEN conjunct1, rule_format, OF f]
  have unset: "poll_for_code some_limit six_digits clock quiet_inbox 10 5 None fresh
        = (Inr JNull, log ''error'' fresh)" .
  from n5 c10 c5 s5 h1 m first second m1 third f unset show ?thesis by blast
qed

lemma poll_sleep_overflows:
  "fst (poll_for_code some_limit six_digits clock quiet_inbox 30000000000 10000000000 None
            selected) = Inl OverflowError
   \<and> attempts_and_sleeps selected
        (snd (poll_for_code some_limit six_digits clock quiet_inbox 30000000000 10000000000 None
                selected))
        = [Request (Inbox (JStr ''alice@example.org''))]"
proof -
  let ?st0 = "log ''info'' selected"
  have t1: "can_format 30000000000"
    by (simp add: can_format_def digits.simps max_str_digits_def)
  have t2: "can_format 10000000000"
    by (simp add: can_format_def digits.simps max_str_digits_def)
  have t3: "nat (max_retries 30000000000 10000000000) = 3" by (simp add: max_retries_def)
  have t4: "\<not> sleep_accepts some_limit 10000000000"
    by (simp add: sleep_accepts_def max_sleep_def some_limit_def)
  have t5: "truthy (email selected)" by code_simp
  have t6: "attempt six_digits clock quiet_inbox None selected 1 = JNull" by code_simp
  have t7: "email selected = JStr ''alice@example.org''" by code_simp
  have nz: "(10000000000::int) \<noteq> 0" by simp
  have em: "truthy (email ?st0)" using t5 by simp
  have a: "\<not> truthy (attempt six_digits clock quiet_inbox None ?st0 1)"
    using t6 by (simp add: attempt_log)
  have ready: "poll_for_code some_limit six_digits clock quiet_inbox 30000000000 10000000000 None
                 selected
     = poll_from some_limit six_digits clock quiet_inbox 10000000000 None 3 1 ?st0"
    using poll_for_code_ready [OF t5 nz t1 t2, of some_limit six_digits clock quiet_inbox None] t3
    by simp
  have le: "(1::nat) \<le> 3" by simp
  from poll_from_first [where st = "?st0" and i = 1 and n = 3 and ?extract_code = six_digits
      and local_time = clock and inbox = quiet_inbox and since_time = None
      and interval = 10000000000 and platform_limit = some_limit, OF em le] a t4
  obtain evs where evs: "filter is_attempt_or_sleep evs = [Request (Inbox (email ?st0))]"
    and run: "poll_from some_limit six_digits clock quiet_inbox 10000000000 None 3 1 ?st0
       = (Inl OverflowError, ?st0\<lparr>trace := trace ?st0 @ evs\<rparr>)"
    by (auto simp add: max_sleep_def)
  show ?thesis
    using evs t7 unfolding ready run by (simp add: attempts_and_sleeps_def log_def)
qed

text \<open>Outside these conditions the method does not return. An interval of 0 raises
  ZeroDivisionError before the first attempt. With timeout \<open>-20\<close> and interval \<open>-4\<close> there
  are five attempts to make, and the sleep after the first raises ValueError. With
  timeout 30000000000 and interval 10000000000 there are three attempts to make, and the
  sleep after the first raises OverflowError: one attempt, no sleep, no \<open>None\<close>.\<close>

theorem poll_for_code_attempts_counterexample:
  "fst (poll_for_code some_limit six_digits clock quiet_inbox 120 0 None selected)
     = Inl ZeroDivisionError
   \<and> attempts_and_sleeps selected
        (snd (poll_for_code some_limit six_digits clock quiet_inbox 120 0 None selected)) = []
   \<and> max_retries (- 20) (- 4) = 5
   \<and> fst (poll_for_code some_limit six_digits clock quiet_inbox (- 20) (- 4) None selected)
       = Inl ValueError
   \<and> attempts_and_sleeps selected
        (snd (poll_for_code some_limit six_digits clock quiet_inbox (- 20) (- 4) None selected))
        = [Request (Inbox (JStr ''alice@example.org''))]
   \<and> max_retries 30000000000 10000000000 = 3
   \<and> fst (poll_for_code some_limit six_digits clock quiet_inbox 30000000000 10000000000 None
            selected) = Inl OverflowError
   \<and> attempts_and_sleeps selected
        (snd (poll_for_code some_limit six_digits clock quiet_inbox 30000000000 10000000000 None
                selected))
        = [Request (Inbox (JStr ''alice@example.org''))]"
proof -
  have zero: "fst (poll_for_code some_limit six_digits clock quiet_inbox 120 0 None selected)
     = Inl ZeroDivisionError
   \<and> attempts_and_sleeps selected
        (snd (poll_for_code some_limit six_digits clock quiet_inbox 120 0 None selected)) = []"
    by code_simp
  have neg: "max_retries (- 20) (- 4) = 5
   \<and> fst (poll_for_code some_limit six_digits clock quiet_inbox (- 20) (- 4) None selected)
       = Inl ValueError
   \<and> attempts_and_sleeps selected
        (snd (poll_for_code some_limit six_digits clock quiet_inbox (- 20) (- 4) None selected))
        = [Request (Inbox (JStr ''alice@example.org''))]"
    by code_simp
  have m: "max_retries 30000000000 10000000000 = 3" by (simp add: max_retries_def)
  from zero neg m poll_sleep_overflows show ?thesis by blast
qed

















end
